theory Spec2Isabelle
  imports Main "HOL-Library.Sublist" "HOL-Library.Char_ord" "HOL-Library.List_Lexorder"
    "HOL-Library.Multiset"
begin

section \<open>The string operations of the script\<close>

text \<open>
  Strings are byte strings. \<open>sorted\<close> on Python strings compares code points
  lexicographically, a proper prefix first; on UTF-8 bytes that is the lexicographic order
  of the byte lists, which \<open>List_Lexorder\<close> with \<open>Char_ord\<close> gives to \<open>sort\<close>.
\<close>

text \<open>\<^verbatim>\<open>file.endswith('.sql')\<close>\<close>

definition endswith :: "string \<Rightarrow> string \<Rightarrow> bool" where
  "endswith s suf = suffix suf s"

text \<open>
  \<^verbatim>\<open>s.replace(old, new)\<close>: every non-overlapping occurrence of \<open>old\<close>, found from
  the left, is replaced by \<open>new\<close>; the text already produced is not scanned again.
\<close>

fun replace :: "string \<Rightarrow> string \<Rightarrow> string \<Rightarrow> string" where
  "replace [] old new = []"
| "replace (c # cs) old new =
     (if old \<noteq> [] \<and> prefix old (c # cs)
      then new @ replace (drop (length old) (c # cs)) old new
      else c # replace cs old new)"

text \<open>
  \<^verbatim>\<open>s.upper()\<close> on the ASCII letters; every other byte is kept. (Python also maps
  letters outside ASCII; the texts of the model are ASCII.)
\<close>

definition upper_char :: "char \<Rightarrow> char" where
  "upper_char c =
     (case map_of (zip ''abcdefghijklmnopqrstuvwxyz'' ''ABCDEFGHIJKLMNOPQRSTUVWXYZ'') c of
        None \<Rightarrow> c
      | Some u \<Rightarrow> u)"

definition upper :: "string \<Rightarrow> string" where
  "upper s = map upper_char s"

text \<open>\<^verbatim>\<open>sub in s\<close> on strings: \<open>sub\<close> occurs in \<open>s\<close> as a contiguous piece.\<close>

definition str_in :: "string \<Rightarrow> string \<Rightarrow> bool" where
  "str_in sub s = sublist sub s"

section \<open>What the script reads\<close>

text \<open>
  The configuration \<^verbatim>\<open>snowflake_ci.yml\<close> after \<^verbatim>\<open>yaml.safe_load\<close>: each of the four
  keys is present or not. A file that cannot be opened and a text that is not YAML (or
  whose values have another shape than the script uses them with) raise before line 49.
\<close>

record config =
  cfg_SNOWFLAKE_CONN_ID :: "string option"
  cfg_OWNER :: "string option"
  cfg_TAGS :: "string list option"
  cfg_PARAMS :: "string list option"

datatype yml = NoYml | BadYml | Yml config

text \<open>
  One of the ten subdirectories: not a directory (\<^verbatim>\<open>os.path.isdir\<close> is false), a
  directory that \<^verbatim>\<open>os.listdir\<close> cannot list, or a directory with its entries in the
  order \<^verbatim>\<open>os.listdir\<close> returns them (any order).
\<close>

datatype subdir = NoDir | NoList | Dir "string list"

text \<open>
  Everything outside the script that it reads. \<open>base_directory_path\<close> is the directory of
  the script as its path segments; \<open>yml_file\<close> is \<^verbatim>\<open>snowflake_ci.yml\<close> in the parent
  directory, \<open>readme\<close> the text of \<^verbatim>\<open>README.md\<close> beside the script (\<open>None\<close>: it cannot
  be opened), \<open>connections\<close> the \<^verbatim>\<open>extra_dejson\<close> of each connection the host knows,
  \<open>variables\<close> the host's variables, \<open>files\<close> the text of a file of a subdirectory
  (\<open>None\<close>: it cannot be opened), \<open>today\<close> the day the script runs.
\<close>

record env =
  base_directory_path :: "string list"
  yml_file :: yml
  connections :: "string \<Rightarrow> (string \<rightharpoonup> string) option"
  readme :: "string option"
  variables :: "string \<rightharpoonup> string"
  subdirs :: "string \<Rightarrow> subdir"
  files :: "string \<Rightarrow> string \<Rightarrow> string option"
  today :: int

text \<open>\<^verbatim>\<open>os.path.basename\<close> and \<^verbatim>\<open>os.path.dirname\<close> on path segments; lines 13 and 14.\<close>

definition basename :: "string list \<Rightarrow> string" where
  "basename p = (if p = [] then [] else last p)"

definition dirname :: "string list \<Rightarrow> string list" where
  "dirname p = butlast p"

definition parent_dir_name :: "env \<Rightarrow> string" where
  "parent_dir_name e = basename (dirname (base_directory_path e))"

definition directory_name :: "env \<Rightarrow> string" where
  "directory_name e = basename (base_directory_path e)"

section \<open>What the script builds\<close>

datatype error =
    ConfigNotFound
  | ConfigMalformed
  | ConnectionNotFound string
  | KeyError string
  | ReadmeNotFound
  | InvalidKey string
  | ListdirError string
  | SqlReadError string string
  | DuplicateTaskIdFound string string

text \<open>
  A unit of work (\<^verbatim>\<open>SnowflakeOperator\<close>). \<open>params\<close> is a Python dict: an association
  list with distinct keys, in insertion order.
\<close>

record task =
  task_group :: string
  task_id :: string
  sql :: string
  snowflake_conn_id :: string
  params :: "(string \<times> string) list"

record dag_info =
  dag_id :: string
  owner :: string
  dag_conn_id :: string
  description :: string
  template_searchpath :: "string list"
  start_date :: int
  tags :: "string list"
  doc_md :: string

text \<open>
  A \<^verbatim>\<open>TaskGroup\<close> object: its id and its children. A unit is named by its creation
  index in \<open>tasks\<close>, as the objects of the script are distinct whatever their ids.
\<close>

record task_grp =
  group_id :: string
  children :: "nat list"

text \<open>
  The objects the script has built so far, in memory: the DAG (once line 49 has run), the
  units attached to it in creation order, the dependency edges (the host keeps them as
  sets), the task groups opened, and the dict \<^verbatim>\<open>task_groups\<close> of line 118.
\<close>

record state =
  dag :: "dag_info option"
  tasks :: "task list"
  edges :: "(nat \<times> nat) set"
  dag_groups :: "string list"
  task_groups :: "(string \<times> task_grp) list"

definition init_state :: state where
  "init_state = \<lparr>dag = None, tasks = [], edges = {}, dag_groups = [], task_groups = []\<rparr>"

section \<open>The host operations the script calls\<close>

text \<open>
  The host's check of an identifier (\<^verbatim>\<open>validate_key\<close>): not empty, at most 250
  characters, and made of word characters, dots and dashes only. Bytes outside ASCII are
  taken as word characters, as the letters of other scripts are.
\<close>

definition key_char :: "char \<Rightarrow> bool" where
  "key_char c \<longleftrightarrow>
     c \<in> set ''abcdefghijklmnopqrstuvwxyzABCDEFGHIJKLMNOPQRSTUVWXYZ0123456789_.-'' \<or>
     CHR 0x7F < c"

definition valid_key :: "string \<Rightarrow> bool" where
  "valid_key k \<longleftrightarrow> k \<noteq> [] \<and> length k \<le> 250 \<and> list_all key_char k"

text \<open>\<^verbatim>\<open>d[k] = v\<close> on a dict: an existing key keeps its place, a new key goes last.\<close>

fun dict_set :: "(string \<times> string) list \<Rightarrow> string \<Rightarrow> string \<Rightarrow> (string \<times> string) list" where
  "dict_set [] k v = [(k, v)]"
| "dict_set ((k', v') # d) k v =
     (if k' = k then (k, v) # d else (k', v') # dict_set d k v)"

text \<open>\<^verbatim>\<open>Variable.get(key, default_var="")\<close>\<close>

definition Variable_get :: "env \<Rightarrow> string \<Rightarrow> string \<Rightarrow> string" where
  "Variable_get e k default_var = (case variables e k of None \<Rightarrow> default_var | Some v \<Rightarrow> v)"

text \<open>\<^verbatim>\<open>DAG(dag_id, ...)\<close>: the host refuses an identifier that fails its check.\<close>

definition DAG :: "dag_info \<Rightarrow> error + dag_info" where
  "DAG d = (if valid_key (dag_id d) then Inr d else Inl (InvalidKey (dag_id d)))"

text \<open>
  What the host has against a new unit, given the units the DAG already holds: an identifier
  that fails the check, or one that a unit of the same group already has.
\<close>

definition refused :: "task \<Rightarrow> task list \<Rightarrow> error option" where
  "refused t ts =
     (if \<not> valid_key (task_id t) then Some (InvalidKey (task_id t))
      else if (task_group t, task_id t) \<in> set (map (\<lambda>u. (task_group u, task_id u)) ts)
      then Some (DuplicateTaskIdFound (task_group t) (task_id t))
      else None)"

text \<open>
  \<^verbatim>\<open>SnowflakeOperator(..., dag=dag)\<close> inside \<^verbatim>\<open>with TaskGroup(...) as tg\<close>: unless the
  host refuses it, the unit is attached to the DAG object and becomes a child of the group.
\<close>

definition SnowflakeOperator ::
  "task \<Rightarrow> task_grp \<Rightarrow> state \<Rightarrow> error + nat \<times> task_grp \<times> state" where
  "SnowflakeOperator t tg st =
     (case refused t (tasks st) of
        Some err \<Rightarrow> Inl err
      | None \<Rightarrow>
          Inr (length (tasks st),
               tg\<lparr>children := children tg @ [length (tasks st)]\<rparr>,
               st\<lparr>tasks := tasks st @ [t]\<rparr>))"

text \<open>\<^verbatim>\<open>a >> b\<close> on two units.\<close>

definition rshift_task :: "nat \<Rightarrow> nat \<Rightarrow> state \<Rightarrow> state" where
  "rshift_task a b st = st\<lparr>edges := insert (a, b) (edges st)\<rparr>"

text \<open>
  The roots of a group are its children with no upstream unit inside the group, its leaves
  the children with no downstream unit inside the group.
\<close>

definition get_roots :: "state \<Rightarrow> task_grp \<Rightarrow> nat list" where
  "get_roots st g =
     filter (\<lambda>t. \<not> (\<exists>u \<in> set (children g). (u, t) \<in> edges st)) (children g)"

definition get_leaves :: "state \<Rightarrow> task_grp \<Rightarrow> nat list" where
  "get_leaves st g =
     filter (\<lambda>t. \<not> (\<exists>u \<in> set (children g). (t, u) \<in> edges st)) (children g)"

text \<open>\<^verbatim>\<open>g >> h\<close> on two groups: every leaf of \<open>g\<close> gets every root of \<open>h\<close> downstream.\<close>

definition rshift_group :: "task_grp \<Rightarrow> task_grp \<Rightarrow> state \<Rightarrow> state" where
  "rshift_group g h st =
     st\<lparr>edges := edges st \<union> set (List.product (get_leaves st g) (get_roots st h))\<rparr>"

section \<open>The script\<close>

text \<open>Lines 61 to 72.\<close>

definition target_subdirs :: "string list" where
  "target_subdirs =
     [''file_formats'', ''stages'', ''tables'', ''views'', ''sequences'',
      ''streams'', ''functions'', ''procedures'', ''tasks'', ''dml'']"

text \<open>Line 92.\<close>

definition task_id_of :: "string \<Rightarrow> string" where
  "task_id_of file = replace file ''.sql'' ''''"

text \<open>Lines 98 and 99.\<close>

definition inject_schema :: "string \<Rightarrow> string \<Rightarrow> string" where
  "inject_schema SNOWFLAKE_SCHEMA sql_query =
     (if \<not> str_in ''USE'' (upper sql_query)
      then ''USE '' @ SNOWFLAKE_SCHEMA @ [CHR '';'', CHR 0x0A] @ sql_query
      else sql_query)"

text \<open>Line 105: \<^verbatim>\<open>{"schema_name": SNOWFLAKE_SCHEMA, **params}\<close>.\<close>

definition merge_params :: "string \<Rightarrow> (string \<times> string) list \<Rightarrow> (string \<times> string) list" where
  "merge_params SNOWFLAKE_SCHEMA ps =
     fold (\<lambda>(k, v) d. dict_set d k v) ps [(''schema_name'', SNOWFLAKE_SCHEMA)]"

text \<open>Lines 44 to 46.\<close>

definition fetch_params :: "env \<Rightarrow> string list \<Rightarrow> (string \<times> string) list" where
  "fetch_params e keys = fold (\<lambda>param_key d. dict_set d param_key (Variable_get e param_key '''')) keys []"

text \<open>
  What is fixed before the loops start: the schema (line 30), the connection id (line 23)
  and the resolved parameters (lines 44 to 46).
\<close>

record ctx =
  SNOWFLAKE_SCHEMA :: string
  SNOWFLAKE_CONN_ID :: string
  PARAMS :: "(string \<times> string) list"

text \<open>Lines 91 to 107: the unit of one readable file.\<close>

definition make_task :: "ctx \<Rightarrow> string \<Rightarrow> string \<Rightarrow> string \<Rightarrow> task" where
  "make_task cx subdir_name file sql_query =
     \<lparr>task_group = subdir_name,
      task_id = task_id_of file,
      sql = inject_schema (SNOWFLAKE_SCHEMA cx) sql_query,
      snowflake_conn_id = SNOWFLAKE_CONN_ID cx,
      params = merge_params (SNOWFLAKE_SCHEMA cx) (PARAMS cx)\<rparr>"

text \<open>
  Lines 89 to 113, the loop over the sorted entries of one subdirectory. It carries
  \<open>prev_task\<close>, \<open>n_tasks\<close> and the group. A file that cannot be read raises at line 94, a
  unit the host refuses raises at line 101; the objects built before stay as they are.
\<close>

fun file_loop ::
  "env \<Rightarrow> ctx \<Rightarrow> string \<Rightarrow> string list \<Rightarrow> nat option \<Rightarrow> nat \<Rightarrow> task_grp \<Rightarrow> state
     \<Rightarrow> (error + nat \<times> task_grp) \<times> state" where
  "file_loop e cx subdir_name [] prev_task n_tasks tg st = (Inr (n_tasks, tg), st)"
| "file_loop e cx subdir_name (file # rest) prev_task n_tasks tg st =
     (if endswith file ''.sql'' then
        (case files e subdir_name file of
           None \<Rightarrow> (Inl (SqlReadError subdir_name file), st)
         | Some sql_query \<Rightarrow>
             (case SnowflakeOperator (make_task cx subdir_name file sql_query) tg st of
                Inl err \<Rightarrow> (Inl err, st)
              | Inr (t, tg', st') \<Rightarrow>
                  file_loop e cx subdir_name rest (Some t) (n_tasks + 1) tg'
                    (case prev_task of None \<Rightarrow> st' | Some p \<Rightarrow> rshift_task p t st')))
      else file_loop e cx subdir_name rest prev_task n_tasks tg st)"

text \<open>Lines 78 to 123, the loop over the subdirectory names. It carries \<open>prev_group\<close>.\<close>

fun subdir_loop ::
  "env \<Rightarrow> ctx \<Rightarrow> string list \<Rightarrow> task_grp option \<Rightarrow> state \<Rightarrow> (error + unit) \<times> state" where
  "subdir_loop e cx [] prev_group st = (Inr (), st)"
| "subdir_loop e cx (subdir_name # rest) prev_group st =
     (case subdirs e subdir_name of
        NoDir \<Rightarrow> subdir_loop e cx rest prev_group st
      | NoList \<Rightarrow>
          (Inl (ListdirError subdir_name), st\<lparr>dag_groups := dag_groups st @ [subdir_name]\<rparr>)
      | Dir entries \<Rightarrow>
          (case file_loop e cx subdir_name (sort entries) None 0
                  \<lparr>group_id = subdir_name, children = []\<rparr>
                  (st\<lparr>dag_groups := dag_groups st @ [subdir_name]\<rparr>) of
             (Inl err, st') \<Rightarrow> (Inl err, st')
           | (Inr (n_tasks, tg), st') \<Rightarrow>
               if n_tasks < 1 then subdir_loop e cx rest prev_group st'
               else
                 subdir_loop e cx rest (Some tg)
                   (case prev_group of
                      None \<Rightarrow> st'\<lparr>task_groups := task_groups st' @ [(subdir_name, tg)]\<rparr>
                    | Some pg \<Rightarrow>
                        rshift_group pg tg
                          (st'\<lparr>task_groups := task_groups st' @ [(subdir_name, tg)]\<rparr>))))"

text \<open>Lines 17 to 30: the configuration, then the schema from the connection.\<close>

definition load_config :: "env \<Rightarrow> error + config" where
  "load_config e =
     (case yml_file e of
        NoYml \<Rightarrow> Inl ConfigNotFound
      | BadYml \<Rightarrow> Inl ConfigMalformed
      | Yml c \<Rightarrow> Inr c)"

definition conn_id_of :: "config \<Rightarrow> string" where
  "conn_id_of c =
     (case cfg_SNOWFLAKE_CONN_ID c of None \<Rightarrow> ''DEFAULT_CONNECTION'' | Some i \<Rightarrow> i)"

definition owner_of :: "config \<Rightarrow> string" where
  "owner_of c = (case cfg_OWNER c of None \<Rightarrow> ''DEFAULT_OWNER'' | Some ow \<Rightarrow> ow)"

definition tags_of :: "config \<Rightarrow> string list" where
  "tags_of c = (case cfg_TAGS c of None \<Rightarrow> [] | Some ts \<Rightarrow> ts) @ [owner_of c]"

definition param_keys :: "config \<Rightarrow> string list" where
  "param_keys c = (case cfg_PARAMS c of None \<Rightarrow> [] | Some ks \<Rightarrow> ks)"

definition fetch_schema :: "env \<Rightarrow> string \<Rightarrow> error + string" where
  "fetch_schema e conn =
     (case connections e conn of
        None \<Rightarrow> Inl (ConnectionNotFound conn)
      | Some extras \<Rightarrow>
          (case extras ''database'' of
             None \<Rightarrow> Inl (KeyError ''database'')
           | Some db \<Rightarrow> Inr (db @ ''.'' @ directory_name e)))"

definition make_ctx :: "env \<Rightarrow> config \<Rightarrow> string \<Rightarrow> ctx" where
  "make_ctx e c schema =
     \<lparr>SNOWFLAKE_SCHEMA = schema,
      SNOWFLAKE_CONN_ID = conn_id_of c,
      PARAMS = fetch_params e (param_keys c)\<rparr>"

text \<open>Lines 49 to 58: the arguments of the DAG, and the DAG the host makes of them.\<close>

definition dag_args :: "env \<Rightarrow> config \<Rightarrow> string \<Rightarrow> dag_info" where
  "dag_args e c readme_content =
     \<lparr>dag_id = parent_dir_name e @ ''_'' @ directory_name e,
      owner = owner_of c,
      dag_conn_id = conn_id_of c,
      description = ''Run SQL files in Snowflake, organized by subdirectories'',
      template_searchpath = base_directory_path e,
      start_date = today e - 1,
      tags = tags_of c,
      doc_md = readme_content\<rparr>"

definition make_dag :: "env \<Rightarrow> config \<Rightarrow> string \<Rightarrow> error + dag_info" where
  "make_dag e c readme_content = DAG (dag_args e c readme_content)"

text \<open>
  The whole module, top to bottom. The result is how it ends (\<open>Inl\<close>: the exception that
  stopped it) and the objects built up to that point.
\<close>

definition generate :: "env \<Rightarrow> (error + unit) \<times> state" where
  "generate e =
     (case load_config e of
        Inl err \<Rightarrow> (Inl err, init_state)
      | Inr c \<Rightarrow>
          (case fetch_schema e (conn_id_of c) of
             Inl err \<Rightarrow> (Inl err, init_state)
           | Inr schema \<Rightarrow>
               (case readme e of
                  None \<Rightarrow> (Inl ReadmeNotFound, init_state)
                | Some readme_content \<Rightarrow>
                    (case make_dag e c readme_content of
                       Inl err \<Rightarrow> (Inl err, init_state)
                     | Inr d \<Rightarrow>
                         subdir_loop e (make_ctx e c schema) target_subdirs None
                           (init_state\<lparr>dag := Some d\<rparr>)))))"

text \<open>
  The host runtime is not part of the script. It imports the module and takes the DAG
  object of the module into its registry when the import has returned; the script hands
  nothing to the host before that, and has no \<^verbatim>\<open>try\<close>. So a run that raises registers no
  pipeline with the host, whatever the objects in memory were at that point.
\<close>

definition host_registry :: "env \<Rightarrow> state option" where
  "host_registry e = (case generate e of (Inl err, st) \<Rightarrow> None | (Inr u, st) \<Rightarrow> Some st)"

section \<open>Closed forms of the two loops\<close>

text \<open>
  The definitions of this section are not in the script: they say in one expression what
  its loops compute, and the lemmas below prove that the loops compute exactly that.
\<close>

text \<open>Line 90.\<close>

definition is_sql :: "string \<Rightarrow> bool" where
  "is_sql file = endswith file ''.sql''"

text \<open>The unit of file \<open>f\<close> of category \<open>c\<close>.\<close>

definition unit_of :: "env \<Rightarrow> ctx \<Rightarrow> string \<Rightarrow> string \<Rightarrow> task" where
  "unit_of e cx c f = make_task cx c f (case files e c f of None \<Rightarrow> [] | Some body \<Rightarrow> body)"

text \<open>
  The files of a listing that become units when the DAG already holds the units \<open>ts\<close>:
  those before the first one that cannot be read or that the host refuses. And the error
  that stops the inner loop, if one does.
\<close>

fun taken :: "env \<Rightarrow> ctx \<Rightarrow> string \<Rightarrow> string list \<Rightarrow> task list \<Rightarrow> string list" where
  "taken e cx c [] ts = []"
| "taken e cx c (f # fs) ts =
     (if is_sql f then
        (if files e c f \<noteq> None \<and> refused (unit_of e cx c f) ts = None
         then f # taken e cx c fs (ts @ [unit_of e cx c f])
         else [])
      else taken e cx c fs ts)"

fun halted :: "env \<Rightarrow> ctx \<Rightarrow> string \<Rightarrow> string list \<Rightarrow> task list \<Rightarrow> error option" where
  "halted e cx c [] ts = None"
| "halted e cx c (f # fs) ts =
     (if is_sql f then
        (case files e c f of
           None \<Rightarrow> Some (SqlReadError c f)
         | Some body \<Rightarrow>
             (case refused (unit_of e cx c f) ts of
                Some err \<Rightarrow> Some err
              | None \<Rightarrow> halted e cx c fs (ts @ [unit_of e cx c f])))
      else halted e cx c fs ts)"

text \<open>How a loop ends: with the error that stopped it, or with its result.\<close>

definition ended :: "error option \<Rightarrow> 'a \<Rightarrow> error + 'a" where
  "ended h x = (case h of None \<Rightarrow> Inr x | Some err \<Rightarrow> Inl err)"

text \<open>
  The edges the inner loop adds over \<open>k\<close> new units starting at index \<open>m\<close>, with
  \<open>prev_task\<close> as it stands.
\<close>

fun chain_edges :: "nat option \<Rightarrow> nat \<Rightarrow> nat \<Rightarrow> (nat \<times> nat) set" where
  "chain_edges prev m 0 = {}"
| "chain_edges prev m (Suc k) =
     (case prev of None \<Rightarrow> {} | Some p \<Rightarrow> {(p, m)}) \<union> chain_edges (Some m) (Suc m) k"

text \<open>The files of a category in the order the script takes them: the sorted \<open>.sql\<close> entries.\<close>

definition sql_files :: "env \<Rightarrow> string \<Rightarrow> string list" where
  "sql_files e c = (case subdirs e c of Dir entries \<Rightarrow> filter is_sql (sort entries) | _ \<Rightarrow> [])"

text \<open>
  The (category, file) pairs that become units over a list of categories when the DAG
  already holds the units \<open>ts\<close>, and how the outer loop ends.
\<close>

fun registered :: "env \<Rightarrow> ctx \<Rightarrow> string list \<Rightarrow> task list \<Rightarrow> (string \<times> string) list" where
  "registered e cx [] ts = []"
| "registered e cx (c # cs) ts =
     (case subdirs e c of
        NoDir \<Rightarrow> registered e cx cs ts
      | NoList \<Rightarrow> []
      | Dir entries \<Rightarrow>
          map (Pair c) (taken e cx c (sort entries) ts) @
          (if halted e cx c (sort entries) ts = None
           then registered e cx cs (ts @ map (unit_of e cx c) (taken e cx c (sort entries) ts))
           else []))"

fun outcome :: "env \<Rightarrow> ctx \<Rightarrow> string list \<Rightarrow> task list \<Rightarrow> error + unit" where
  "outcome e cx [] ts = Inr ()"
| "outcome e cx (c # cs) ts =
     (case subdirs e c of
        NoDir \<Rightarrow> outcome e cx cs ts
      | NoList \<Rightarrow> Inl (ListdirError c)
      | Dir entries \<Rightarrow>
          (case halted e cx c (sort entries) ts of
             Some err \<Rightarrow> Inl err
           | None \<Rightarrow>
               outcome e cx cs (ts @ map (unit_of e cx c) (taken e cx c (sort entries) ts))))"

text \<open>The state after a group was opened, after its files were taken, after line 118.\<close>

definition opened :: "string \<Rightarrow> state \<Rightarrow> state" where
  "opened c st = st\<lparr>dag_groups := dag_groups st @ [c]\<rparr>"

definition filled :: "env \<Rightarrow> ctx \<Rightarrow> string \<Rightarrow> string list \<Rightarrow> state \<Rightarrow> state" where
  "filled e cx c fs st =
     st\<lparr>dag_groups := dag_groups st @ [c],
        tasks := tasks st @ map (unit_of e cx c) (taken e cx c fs (tasks st)),
        edges := edges st \<union>
          chain_edges None (length (tasks st)) (length (taken e cx c fs (tasks st)))\<rparr>"

definition group_of :: "env \<Rightarrow> ctx \<Rightarrow> string \<Rightarrow> string list \<Rightarrow> state \<Rightarrow> task_grp" where
  "group_of e cx c fs st =
     \<lparr>group_id = c,
      children =
        [length (tasks st) ..< length (tasks st) + length (taken e cx c fs (tasks st))]\<rparr>"

definition recorded :: "string \<Rightarrow> task_grp \<Rightarrow> state \<Rightarrow> state" where
  "recorded c tg st = st\<lparr>task_groups := task_groups st @ [(c, tg)]\<rparr>"

text \<open>The edges of one chain over \<open>n\<close> units: each unit to the next.\<close>

definition line :: "nat \<Rightarrow> (nat \<times> nat) set" where
  "line n = {(i, Suc i) | i. Suc i < n}"

text \<open>
  The invariant of the outer loop: all units so far form one chain in creation order, and
  \<open>prev_group\<close> is the group that holds the last of them.
\<close>

definition chained :: "state \<Rightarrow> task_grp option \<Rightarrow> bool" where
  "chained st pg \<longleftrightarrow>
     edges st = line (length (tasks st)) \<and>
     (case pg of
        None \<Rightarrow> tasks st = []
      | Some g \<Rightarrow> (\<exists>a < length (tasks st). children g = [a ..< length (tasks st)]))"

section \<open>Two runs over the same files\<close>

text \<open>
  Two listings of one subdirectory show the same files: both are absent, both cannot be
  listed, or both have the same entries, in whatever order \<^verbatim>\<open>os.listdir\<close> returns them.
\<close>

fun same_entries :: "subdir \<Rightarrow> subdir \<Rightarrow> bool" where
  "same_entries (Dir xs) (Dir ys) \<longleftrightarrow> mset xs = mset ys"
| "same_entries NoDir NoDir \<longleftrightarrow> True"
| "same_entries NoList NoList \<longleftrightarrow> True"
| "same_entries a b \<longleftrightarrow> False"

section \<open>Example layouts\<close>

definition example_config :: config where
  "example_config =
     \<lparr>cfg_SNOWFLAKE_CONN_ID = Some ''snowflake_default'', cfg_OWNER = None,
      cfg_TAGS = None, cfg_PARAMS = Some [''p1'', ''p2'']\<rparr>"

definition example_env :: env where
  "example_env =
     \<lparr>base_directory_path = [''dags'', ''analytics'', ''sales''],
      yml_file = Yml example_config,
      connections = (\<lambda>i. if i = ''snowflake_default'' then Some [''database'' \<mapsto> ''DB''] else None),
      readme = Some ''# sales'',
      variables = [''p1'' \<mapsto> ''v1''],
      subdirs = (\<lambda>c. if c = ''file_formats'' then Dir [''2.sql'', ''1.sql'']
                     else if c = ''stages'' then Dir [''x.sql''] else NoDir),
      files = (\<lambda>c f. Some ''SELECT 1''),
      today = 20000\<rparr>"

text \<open>A layout with an absent and an empty category between two that have files.\<close>

definition gaps_env :: env where
  "gaps_env = example_env\<lparr>subdirs :=
     (\<lambda>c. if c = ''file_formats'' then Dir [''b.sql'', ''a.sql'']
          else if c = ''tables'' then Dir [''notes.txt'']
          else if c = ''views'' then Dir [''v.sql''] else NoDir)\<rparr>"

text \<open>A layout with one category that has a file, and an empty one after it.\<close>

definition lone_env :: env where
  "lone_env = example_env\<lparr>subdirs :=
     (\<lambda>c. if c = ''tables'' then Dir [''t.sql'']
          else if c = ''views'' then Dir [] else NoDir)\<rparr>"

text \<open>A configuration that declares a parameter named \<open>schema_name\<close>.\<close>

definition collision_env :: env where
  "collision_env = example_env
     \<lparr>yml_file := Yml (example_config\<lparr>cfg_PARAMS := Some [''schema_name'']\<rparr>),
      variables := [''schema_name'' \<mapsto> ''other'']\<rparr>"

text \<open>The example layout with a file that cannot be read.\<close>

definition unreadable_env :: env where
  "unreadable_env = example_env
     \<lparr>files := (\<lambda>c f. if f = ''2.sql'' then None else Some ''SELECT 1'')\<rparr>"

text \<open>A layout whose only file has \<open>.sql\<close> inside its name as well as at its end.\<close>

definition inner_env :: env where
  "inner_env = example_env
     \<lparr>subdirs := (\<lambda>c. if c = ''tables'' then Dir [''v1.sql_fix.sql''] else NoDir)\<rparr>"

text \<open>A layout with two files whose names differ by an inner \<open>.sql\<close>.\<close>

definition twin_env :: env where
  "twin_env = example_env
     \<lparr>subdirs := (\<lambda>c. if c = ''tables'' then Dir [''a.sql'', ''a.sql.sql''] else NoDir)\<rparr>"

text \<open>A layout whose only file names a table \<open>users\<close> and selects no schema.\<close>

definition users_env :: env where
  "users_env = example_env
     \<lparr>subdirs := (\<lambda>c. if c = ''views'' then Dir [''active.sql''] else NoDir),
      files := (\<lambda>c f. Some ''SELECT id FROM users;'')\<rparr>"

text \<open>
  The example layout on the next day, with the entries of \<open>file_formats\<close> listed in the
  other order.
\<close>

definition rerun_env :: env where
  "rerun_env = example_env
     \<lparr>subdirs := (\<lambda>c. if c = ''file_formats'' then Dir [''1.sql'', ''2.sql'']
                      else if c = ''stages'' then Dir [''x.sql''] else NoDir),
      today := 20001\<rparr>"

section \<open>The inner loop\<close>

lemma unit_of_read: "files e c f = Some body \<Longrightarrow> make_task cx c f body = unit_of e cx c f"
  by (simp add: unit_of_def)

lemma ended_simps:
  "ended None x = Inr x" "ended (Some err) x = Inl err"
  by (simp_all add: ended_def)

lemma file_loop_snd:
  "snd (file_loop e cx c fs prev n tg st) =
     st\<lparr>tasks := tasks st @ map (unit_of e cx c) (taken e cx c fs (tasks st)),
        edges := edges st \<union>
          chain_edges prev (length (tasks st)) (length (taken e cx c fs (tasks st)))\<rparr>"
proof (induction fs arbitrary: prev n tg st)
  case Nil
  show ?case by simp
next
  case (Cons f fs)
  show ?case
  proof (cases "is_sql f")
    case False
    then show ?thesis using Cons.IH by (simp add: is_sql_def [symmetric])
  next
    case sql: True
    show ?thesis
    proof (cases "files e c f")
      case None
      with sql show ?thesis by (simp add: is_sql_def [symmetric])
    next
      case (Some body)
      note u = unit_of_read [OF Some]
      show ?thesis
      proof (cases "refused (unit_of e cx c f) (tasks st)")
        case (Some err)
        with sql \<open>files e c f = Some body\<close> show ?thesis
          by (simp add: is_sql_def [symmetric] u SnowflakeOperator_def)
      next
        case None
        with sql \<open>files e c f = Some body\<close> show ?thesis
          by (cases prev)
             (simp_all add: is_sql_def [symmetric] u SnowflakeOperator_def Cons.IH
                rshift_task_def)
      qed
    qed
  qed
qed

lemma file_loop_fst:
  "fst (file_loop e cx c fs prev n tg st) =
     ended (halted e cx c fs (tasks st))
       (n + length (taken e cx c fs (tasks st)),
        tg\<lparr>children := children tg @
           [length (tasks st) ..< length (tasks st) + length (taken e cx c fs (tasks st))]\<rparr>)"
proof (induction fs arbitrary: prev n tg st)
  case Nil
  show ?case by (simp add: ended_simps)
next
  case (Cons f fs)
  show ?case
  proof (cases "is_sql f")
    case False
    then show ?thesis using Cons.IH by (simp add: is_sql_def [symmetric] ended_simps)
  next
    case sql: True
    show ?thesis
    proof (cases "files e c f")
      case None
      with sql show ?thesis by (simp add: is_sql_def [symmetric] ended_simps)
    next
      case (Some body)
      note u = unit_of_read [OF Some]
      show ?thesis
      proof (cases "refused (unit_of e cx c f) (tasks st)")
        case (Some err)
        with sql \<open>files e c f = Some body\<close> show ?thesis
          by (simp add: is_sql_def [symmetric] u SnowflakeOperator_def ended_simps)
      next
        case None
        have upt: "[m ..< Suc (m + k)] = m # [Suc m ..< Suc (m + k)]" for m k :: nat
          by (simp add: upt_conv_Cons del: upt_Suc)
        from None sql \<open>files e c f = Some body\<close> show ?thesis
          by (cases prev)
             (simp_all add: is_sql_def [symmetric] u SnowflakeOperator_def Cons.IH
                rshift_task_def upt del: upt_Suc)
      qed
    qed
  qed
qed

lemma file_loop_eq:
  "file_loop e cx c fs prev n tg st =
     (ended (halted e cx c fs (tasks st))
        (n + length (taken e cx c fs (tasks st)),
         tg\<lparr>children := children tg @
            [length (tasks st) ..<
             length (tasks st) + length (taken e cx c fs (tasks st))]\<rparr>),
      st\<lparr>tasks := tasks st @ map (unit_of e cx c) (taken e cx c fs (tasks st)),
        edges := edges st \<union>
          chain_edges prev (length (tasks st)) (length (taken e cx c fs (tasks st)))\<rparr>)"
  by (rule prod_eqI) (simp_all only: fst_conv snd_conv file_loop_fst file_loop_snd)

lemma taken_through: "halted e cx c fs ts = None \<Longrightarrow> taken e cx c fs ts = filter is_sql fs"
  by (induction fs arbitrary: ts) (auto split: option.splits if_splits)

lemma taken_mem:
  "f \<in> set (taken e cx c fs ts) \<Longrightarrow> f \<in> set fs \<and> is_sql f \<and> files e c f \<noteq> None"
  by (induction fs arbitrary: ts) (auto split: if_splits)

lemma halted_readable:
  "halted e cx c fs ts = None \<Longrightarrow> f \<in> set fs \<Longrightarrow> is_sql f \<Longrightarrow> files e c f \<noteq> None"
  by (induction fs arbitrary: ts) (auto split: option.splits if_splits)

lemma chain_edges_Some:
  "chain_edges (Some p) m k =
     (if k = 0 then {} else {(p, m)}) \<union> {(i, Suc i) | i. m \<le> i \<and> Suc i < m + k}"
proof (induction k arbitrary: p m)
  case 0
  then show ?case by simp
next
  case (Suc k)
  have "{(i, Suc i) | i. m \<le> i \<and> Suc i < m + Suc k}
      = (if k = 0 then {} else {(m, Suc m)}) \<union> {(i, Suc i) | i. Suc m \<le> i \<and> Suc i < Suc m + k}"
    by (auto simp: le_Suc_eq)
  then show ?case by (auto simp: Suc.IH)
qed

lemma chain_edges_None:
  "chain_edges None m k = {(i, Suc i) | i. m \<le> i \<and> Suc i < m + k}"
proof (cases k)
  case 0
  then show ?thesis by simp
next
  case (Suc j)
  have "{(i, Suc i) | i. m \<le> i \<and> Suc i < m + Suc j}
      = (if j = 0 then {} else {(m, Suc m)}) \<union> {(i, Suc i) | i. Suc m \<le> i \<and> Suc i < Suc m + j}"
    by (auto simp: le_Suc_eq)
  then show ?thesis using Suc by (simp add: chain_edges_Some)
qed

section \<open>The outer loop\<close>

lemma subdir_loop_NoDir:
  "subdirs e c = NoDir \<Longrightarrow> subdir_loop e cx (c # cs) pg st = subdir_loop e cx cs pg st"
  by simp

lemma subdir_loop_NoList:
  "subdirs e c = NoList \<Longrightarrow>
     subdir_loop e cx (c # cs) pg st = (Inl (ListdirError c), opened c st)"
  by (simp add: opened_def)

lemma file_loop_stopped:
  assumes "halted e cx c fs (tasks st) = Some err"
  shows "file_loop e cx c fs None 0 \<lparr>group_id = c, children = []\<rparr> (opened c st) =
     (Inl err, filled e cx c fs st)"
  unfolding file_loop_eq using assms by (simp add: filled_def opened_def ended_simps)

lemma file_loop_through:
  assumes "halted e cx c fs (tasks st) = None"
  shows "file_loop e cx c fs None 0 \<lparr>group_id = c, children = []\<rparr> (opened c st) =
     (Inr (length (taken e cx c fs (tasks st)), group_of e cx c fs st), filled e cx c fs st)"
  unfolding file_loop_eq using assms
  by (simp add: filled_def opened_def group_of_def ended_simps)

lemma subdir_loop_Dir:
  assumes "subdirs e c = Dir entries"
  shows "subdir_loop e cx (c # cs) pg st =
     (case file_loop e cx c (sort entries) None 0 \<lparr>group_id = c, children = []\<rparr> (opened c st) of
        (Inl err, st') \<Rightarrow> (Inl err, st')
      | (Inr (n_tasks, tg), st') \<Rightarrow>
          if n_tasks < 1 then subdir_loop e cx cs pg st'
          else subdir_loop e cx cs (Some tg)
                 (case pg of None \<Rightarrow> recorded c tg st'
                  | Some g \<Rightarrow> rshift_group g tg (recorded c tg st')))"
  using assms by (simp add: opened_def recorded_def split: prod.splits sum.splits option.splits)

lemma subdir_loop_stopped:
  assumes "subdirs e c = Dir entries" and "halted e cx c (sort entries) (tasks st) = Some err"
  shows "subdir_loop e cx (c # cs) pg st = (Inl err, filled e cx c (sort entries) st)"
  by (simp only: subdir_loop_Dir [OF assms(1)] file_loop_stopped [OF assms(2)] prod.case sum.case)

lemma subdir_loop_none:
  assumes "subdirs e c = Dir entries" and "halted e cx c (sort entries) (tasks st) = None"
    and "taken e cx c (sort entries) (tasks st) = []"
  shows "subdir_loop e cx (c # cs) pg st =
     subdir_loop e cx cs pg (filled e cx c (sort entries) st)"
  by (simp only: subdir_loop_Dir [OF assms(1)] file_loop_through [OF assms(2)] prod.case sum.case
        assms(3)) simp

lemma subdir_loop_first:
  assumes "subdirs e c = Dir entries" and "halted e cx c (sort entries) (tasks st) = None"
    and "taken e cx c (sort entries) (tasks st) \<noteq> []"
  shows "subdir_loop e cx (c # cs) None st =
     subdir_loop e cx cs (Some (group_of e cx c (sort entries) st))
       (recorded c (group_of e cx c (sort entries) st) (filled e cx c (sort entries) st))"
  using assms(3)
  by (simp only: subdir_loop_Dir [OF assms(1)] file_loop_through [OF assms(2)] prod.case sum.case)
     simp

lemma subdir_loop_next:
  assumes "subdirs e c = Dir entries" and "halted e cx c (sort entries) (tasks st) = None"
    and "taken e cx c (sort entries) (tasks st) \<noteq> []"
  shows "subdir_loop e cx (c # cs) (Some pg) st =
     subdir_loop e cx cs (Some (group_of e cx c (sort entries) st))
       (rshift_group pg (group_of e cx c (sort entries) st)
          (recorded c (group_of e cx c (sort entries) st) (filled e cx c (sort entries) st)))"
  using assms(3)
  by (simp only: subdir_loop_Dir [OF assms(1)] file_loop_through [OF assms(2)] prod.case sum.case)
     simp

lemma filled_tasks:
  "tasks (filled e cx c fs st) =
     tasks st @ map (unit_of e cx c) (taken e cx c fs (tasks st))"
  by (simp add: filled_def)

lemma rest_tasks:
  "tasks (opened c st) = tasks st"
  "tasks (recorded c tg st) = tasks st"
  "tasks (rshift_group g h st) = tasks st"
  by (simp_all add: opened_def recorded_def rshift_group_def)

lemma rest_dag:
  "dag (opened c st) = dag st"
  "dag (recorded c tg st) = dag st"
  "dag (rshift_group g h st) = dag st"
  "dag (filled e cx c fs st) = dag st"
  by (simp_all add: opened_def recorded_def rshift_group_def filled_def)

text \<open>
  One step of the outer loop, by cases: the subdirectory is absent, cannot be listed, stops
  the inner loop, gives no unit, or gives the first or a further non-empty group.
\<close>

lemma subdir_loop_cases:
  obtains (absent) "subdirs e c = NoDir"
      "subdir_loop e cx (c # cs) pg st = subdir_loop e cx cs pg st"
  | (unlisted) "subdirs e c = NoList"
      "subdir_loop e cx (c # cs) pg st = (Inl (ListdirError c), opened c st)"
  | (stopped) entries err where "subdirs e c = Dir entries"
      "halted e cx c (sort entries) (tasks st) = Some err"
      "subdir_loop e cx (c # cs) pg st = (Inl err, filled e cx c (sort entries) st)"
  | (none) entries where "subdirs e c = Dir entries"
      "halted e cx c (sort entries) (tasks st) = None"
      "taken e cx c (sort entries) (tasks st) = []"
      "subdir_loop e cx (c # cs) pg st =
         subdir_loop e cx cs pg (filled e cx c (sort entries) st)"
  | (first) entries where "subdirs e c = Dir entries"
      "halted e cx c (sort entries) (tasks st) = None"
      "taken e cx c (sort entries) (tasks st) \<noteq> []" "pg = None"
      "subdir_loop e cx (c # cs) pg st =
         subdir_loop e cx cs (Some (group_of e cx c (sort entries) st))
           (recorded c (group_of e cx c (sort entries) st) (filled e cx c (sort entries) st))"
  | (further) entries g where "subdirs e c = Dir entries"
      "halted e cx c (sort entries) (tasks st) = None"
      "taken e cx c (sort entries) (tasks st) \<noteq> []" "pg = Some g"
      "subdir_loop e cx (c # cs) pg st =
         subdir_loop e cx cs (Some (group_of e cx c (sort entries) st))
           (rshift_group g (group_of e cx c (sort entries) st)
              (recorded c (group_of e cx c (sort entries) st)
                 (filled e cx c (sort entries) st)))"
proof (cases "subdirs e c")
  case NoDir
  from absent [OF NoDir subdir_loop_NoDir [OF NoDir]] show ?thesis .
next
  case NoList
  from unlisted [OF NoList subdir_loop_NoList [OF NoList]] show ?thesis .
next
  case (Dir entries)
  show ?thesis
  proof (cases "halted e cx c (sort entries) (tasks st)")
    case (Some err)
    from stopped [OF Dir Some subdir_loop_stopped [OF Dir Some]] show ?thesis .
  next
    case None
    show ?thesis
    proof (cases "taken e cx c (sort entries) (tasks st) = []")
      case True
      from none [OF Dir None True subdir_loop_none [OF Dir None True]] show ?thesis .
    next
      case False
      show ?thesis
      proof (cases pg)
        case no: None
        from first [OF Dir None False no] subdir_loop_first [OF Dir None False, where cs = cs] no
        show ?thesis by simp
      next
        case (Some g)
        from further [OF Dir None False Some] subdir_loop_next [OF Dir None False, where cs = cs and pg = g] Some
        show ?thesis by simp
      qed
    qed
  qed
qed

lemma subdir_loop_fst: "fst (subdir_loop e cx cs pg st) = outcome e cx cs (tasks st)"
proof (induction cs arbitrary: pg st)
  case Nil
  show ?case by simp
next
  case (Cons c cs)
  show ?case
  proof (cases rule: subdir_loop_cases [where e = e and c = c and cx = cx and cs = cs and pg = pg and st = st])
    case absent
    then show ?thesis by (simp add: Cons.IH del: subdir_loop.simps)
  next
    case unlisted
    then show ?thesis by (simp del: subdir_loop.simps)
  next
    case (stopped entries err)
    then show ?thesis by (simp del: subdir_loop.simps)
  next
    case (none entries)
    then show ?thesis by (simp add: Cons.IH filled_tasks del: subdir_loop.simps)
  next
    case (first entries)
    then show ?thesis by (simp add: Cons.IH filled_tasks rest_tasks del: subdir_loop.simps)
  next
    case (further entries g)
    then show ?thesis by (simp add: Cons.IH filled_tasks rest_tasks del: subdir_loop.simps)
  qed
qed

lemma subdir_loop_tasks:
  "tasks (snd (subdir_loop e cx cs pg st)) =
     tasks st @ map (\<lambda>(c, f). unit_of e cx c f) (registered e cx cs (tasks st))"
proof (induction cs arbitrary: pg st)
  case Nil
  show ?case by simp
next
  case (Cons c cs)
  show ?case
  proof (cases rule: subdir_loop_cases [where e = e and c = c and cx = cx and cs = cs and pg = pg and st = st])
    case absent
    then show ?thesis by (simp add: Cons.IH del: subdir_loop.simps)
  next
    case unlisted
    then show ?thesis by (simp add: rest_tasks del: subdir_loop.simps)
  next
    case (stopped entries err)
    then show ?thesis by (simp add: filled_tasks comp_def del: subdir_loop.simps)
  next
    case (none entries)
    then show ?thesis by (simp add: Cons.IH filled_tasks del: subdir_loop.simps)
  next
    case (first entries)
    then show ?thesis
      by (simp add: Cons.IH filled_tasks rest_tasks comp_def del: subdir_loop.simps)
  next
    case (further entries g)
    then show ?thesis
      by (simp add: Cons.IH filled_tasks rest_tasks comp_def del: subdir_loop.simps)
  qed
qed

lemma subdir_loop_dag: "dag (snd (subdir_loop e cx cs pg st)) = dag st"
proof (induction cs arbitrary: pg st)
  case Nil
  show ?case by simp
next
  case (Cons c cs)
  show ?case
    by (cases rule: subdir_loop_cases [where e = e and c = c and cx = cx and cs = cs and pg = pg and st = st])
       (simp_all add: Cons.IH rest_dag del: subdir_loop.simps)
qed

section \<open>The chain\<close>

lemma chained_none:
  assumes "chained st pg" and "taken e cx c fs (tasks st) = []"
  shows "chained (filled e cx c fs st) pg"
  using assms by (auto simp: chained_def filled_def split: option.splits)

lemma chained_first:
  assumes "chained st None" and "taken e cx c fs (tasks st) \<noteq> []"
  shows "chained (recorded c (group_of e cx c fs st) (filled e cx c fs st))
           (Some (group_of e cx c fs st))"
  using assms
  by (auto simp: chained_def filled_def recorded_def group_of_def chain_edges_None line_def)

lemma leaves_of_chain:
  assumes "a < m" and "edges st = line m \<union> {(i, Suc i) | i. m \<le> i \<and> Suc i < m + k}"
    and "children g = [a ..< m]"
  shows "set (get_leaves st g) = {m - 1}"
  using assms by (auto simp: get_leaves_def line_def)

lemma roots_of_chain:
  assumes "0 < k" and "edges st = line m \<union> {(i, Suc i) | i. m \<le> i \<and> Suc i < m + k}"
    and "children g = [m ..< m + k]"
  shows "set (get_roots st g) = {m}"
proof -
  have mem: "(u, t) \<in> edges st \<longleftrightarrow> t = Suc u \<and> t < m + k \<and> (t < m \<or> m \<le> u)" for u t
    unfolding assms(2) line_def by auto
  have "t \<in> set (get_roots st g) \<longleftrightarrow> t = m" for t
  proof
    assume "t \<in> set (get_roots st g)"
    then have t: "m \<le> t" "t < m + k" and none: "\<forall>u. m \<le> u \<and> u < m + k \<longrightarrow> (u, t) \<notin> edges st"
      by (simp_all add: get_roots_def assms(3))
    show "t = m"
    proof (rule ccontr)
      assume "t \<noteq> m"
      with t have "m \<le> t - 1" "t - 1 < m + k" "t = Suc (t - 1)" by simp_all
      with t(2) have "(t - 1, t) \<in> edges st" unfolding mem by simp
      with none \<open>m \<le> t - 1\<close> \<open>t - 1 < m + k\<close> show False by blast
    qed
  next
    assume "t = m"
    moreover have "(u, m) \<notin> edges st" if "m \<le> u" for u
      using that unfolding mem by simp
    ultimately show "t \<in> set (get_roots st g)"
      using assms(1) by (simp add: get_roots_def assms(3))
  qed
  then show ?thesis by blast
qed

lemma line_extend:
  assumes "0 < m" and "0 < k"
  shows "line m \<union> {(i, Suc i) | i. m \<le> i \<and> Suc i < m + k} \<union> {m - 1} \<times> {m} = line (m + k)"
  using assms by (auto simp: line_def)

lemma chained_next:
  assumes "chained st (Some pg)" and "taken e cx c fs (tasks st) \<noteq> []"
  shows "chained (rshift_group pg (group_of e cx c fs st)
                    (recorded c (group_of e cx c fs st) (filled e cx c fs st)))
           (Some (group_of e cx c fs st))"
proof -
  let ?m = "length (tasks st)" and ?k = "length (taken e cx c fs (tasks st))"
  let ?g = "group_of e cx c fs st"
  let ?st = "recorded c ?g (filled e cx c fs st)"
  from assms(1) obtain a where a: "a < ?m" "children pg = [a ..< ?m]"
    and old: "edges st = line ?m"
    by (auto simp: chained_def)
  from assms(2) have k: "0 < ?k" by simp
  have E: "edges ?st = line ?m \<union> {(i, Suc i) | i. ?m \<le> i \<and> Suc i < ?m + ?k}"
    by (simp add: recorded_def filled_def old chain_edges_None)
  have L: "set (get_leaves ?st pg) = {?m - 1}"
    using a(1) E a(2) by (rule leaves_of_chain)
  have R: "set (get_roots ?st ?g) = {?m}"
    using k E by (rule roots_of_chain) (simp add: group_of_def)
  from a(1) have m: "0 < ?m" by (rule le_less_trans [OF le0])
  have "edges (rshift_group pg ?g ?st) = edges ?st \<union> {?m - 1} \<times> {?m}"
    by (simp add: rshift_group_def L R)
  then have "edges (rshift_group pg ?g ?st) = line (?m + ?k)"
    by (simp only: E line_extend [OF m k])
  moreover have "tasks (rshift_group pg ?g ?st) = tasks st @ map (unit_of e cx c) (taken e cx c fs (tasks st))"
    by (simp add: rest_tasks filled_tasks)
  moreover have "\<exists>a < ?m + ?k. children ?g = [a ..< ?m + ?k]"
    using k by (intro exI [of _ ?m]) (simp add: group_of_def)
  ultimately show ?thesis
    by (simp add: chained_def)
qed

lemma subdir_loop_edges:
  assumes "chained st pg" and "outcome e cx cs (tasks st) = Inr ()"
  shows "edges (snd (subdir_loop e cx cs pg st)) =
           line (length (tasks (snd (subdir_loop e cx cs pg st))))"
  using assms
proof (induction cs arbitrary: pg st)
  case Nil
  then show ?case by (simp add: chained_def)
next
  case (Cons c cs)
  show ?case
  proof (cases rule: subdir_loop_cases [where e = e and c = c and cx = cx and cs = cs and pg = pg and st = st])
    case absent
    with Cons.prems show ?thesis by (simp add: Cons.IH del: subdir_loop.simps)
  next
    case unlisted
    with Cons.prems show ?thesis by simp
  next
    case (stopped entries err)
    with Cons.prems show ?thesis by simp
  next
    case (none entries)
    from none(1,2) Cons.prems(2)
    have rest: "outcome e cx cs (tasks (filled e cx c (sort entries) st)) = Inr ()"
      by (simp add: filled_tasks)
    show ?thesis
      unfolding none(4)
      by (rule Cons.IH [OF chained_none [OF Cons.prems(1) none(3)] rest])
  next
    case (first entries)
    let ?g = "group_of e cx c (sort entries) st"
    from first(1,2) Cons.prems(2)
    have rest: "outcome e cx cs (tasks (recorded c ?g (filled e cx c (sort entries) st))) = Inr ()"
      by (simp add: filled_tasks rest_tasks)
    show ?thesis
      unfolding first(5)
      by (rule Cons.IH [OF chained_first [OF Cons.prems(1) [unfolded first(4)] first(3)] rest])
  next
    case (further entries g)
    let ?g = "group_of e cx c (sort entries) st"
    from further(1,2) Cons.prems(2)
    have rest: "outcome e cx cs
        (tasks (rshift_group g ?g (recorded c ?g (filled e cx c (sort entries) st)))) = Inr ()"
      by (simp add: filled_tasks rest_tasks)
    show ?thesis
      unfolding further(5)
      by (rule Cons.IH [OF chained_next [OF Cons.prems(1) [unfolded further(4)] further(3)] rest])
  qed
qed

section \<open>The whole script\<close>

lemma generate_run:
  assumes "yml_file e = Yml cfg" and "fetch_schema e (conn_id_of cfg) = Inr schema"
    and "readme e = Some r" and "valid_key (parent_dir_name e @ ''_'' @ directory_name e)"
  shows "generate e =
     subdir_loop e (make_ctx e cfg schema) target_subdirs None
       (init_state\<lparr>dag := Some (dag_args e cfg r)\<rparr>)"
  using assms by (simp add: generate_def load_config_def make_dag_def DAG_def dag_args_def)

lemma generate_fst:
  assumes "yml_file e = Yml cfg" and "fetch_schema e (conn_id_of cfg) = Inr schema"
    and "readme e = Some r" and "valid_key (parent_dir_name e @ ''_'' @ directory_name e)"
  shows "fst (generate e) = outcome e (make_ctx e cfg schema) target_subdirs []"
  by (simp only: generate_run [OF assms] subdir_loop_fst) (simp add: init_state_def)

lemma generate_tasks:
  assumes "yml_file e = Yml cfg" and "fetch_schema e (conn_id_of cfg) = Inr schema"
    and "readme e = Some r" and "valid_key (parent_dir_name e @ ''_'' @ directory_name e)"
  shows "tasks (snd (generate e)) =
     map (\<lambda>(c, f). unit_of e (make_ctx e cfg schema) c f)
       (registered e (make_ctx e cfg schema) target_subdirs [])"
  by (simp only: generate_run [OF assms] subdir_loop_tasks) (simp add: init_state_def)

lemma generate_dag:
  assumes "yml_file e = Yml cfg" and "fetch_schema e (conn_id_of cfg) = Inr schema"
    and "readme e = Some r" and "valid_key (parent_dir_name e @ ''_'' @ directory_name e)"
  shows "dag (snd (generate e)) = Some (dag_args e cfg r)"
  by (simp only: generate_run [OF assms] subdir_loop_dag) simp

lemma generate_cases:
  obtains (early) err where "generate e = (Inl err, init_state)"
  | (run) cfg schema r where "yml_file e = Yml cfg"
      and "fetch_schema e (conn_id_of cfg) = Inr schema" and "readme e = Some r"
      and "valid_key (parent_dir_name e @ ''_'' @ directory_name e)"
proof (cases "yml_file e")
  case NoYml
  then show ?thesis using early by (simp add: generate_def load_config_def)
next
  case BadYml
  then show ?thesis using early by (simp add: generate_def load_config_def)
next
  case (Yml cfg)
  show ?thesis
  proof (cases "fetch_schema e (conn_id_of cfg)")
    case (Inl err)
    with Yml show ?thesis using early by (simp add: generate_def load_config_def)
  next
    case (Inr schema)
    show ?thesis
    proof (cases "readme e")
      case None
      with Yml Inr show ?thesis using early by (simp add: generate_def load_config_def)
    next
      case (Some r)
      show ?thesis
      proof (cases "valid_key (parent_dir_name e @ ''_'' @ directory_name e)")
        case True
        with Yml Inr Some show ?thesis using run by blast
      next
        case False
        with Yml Inr Some show ?thesis using early
          by (simp add: generate_def load_config_def make_dag_def DAG_def dag_args_def)
      qed
    qed
  qed
qed

lemma generate_edges:
  assumes "generate e = (Inr (), st)"
  shows "edges st = line (length (tasks st))"
proof (cases e rule: generate_cases)
  case (early err)
  with assms show ?thesis by simp
next
  case (run cfg schema r)
  let ?st0 = "init_state\<lparr>dag := Some (dag_args e cfg r)\<rparr>"
  have inv: "chained ?st0 None"
    by (simp add: chained_def init_state_def line_def)
  from assms have "outcome e (make_ctx e cfg schema) target_subdirs (tasks ?st0) = Inr ()"
    using generate_fst [OF run] by (simp add: init_state_def)
  from subdir_loop_edges [OF inv this] assms
  show ?thesis by (simp add: generate_run [OF run])
qed

lemma line_pred: "{u. (u, t) \<in> line n} \<subseteq> {t - 1}"
  by (auto simp: line_def)

lemma line_succ: "{v. (t, v) \<in> line n} \<subseteq> {Suc t}"
  by (auto simp: line_def)

lemma card_sub_single: "A \<subseteq> {x} \<Longrightarrow> card A \<le> 1"
  by (metis card_mono card.empty card_insert_disjoint empty_iff finite.emptyI finite.insertI One_nat_def)

section \<open>Running the examples\<close>

lemma unit_of_sel:
  "task_group (unit_of e cx c f) = c"
  "task_id (unit_of e cx c f) = task_id_of f"
  "snowflake_conn_id (unit_of e cx c f) = SNOWFLAKE_CONN_ID cx"
  "params (unit_of e cx c f) = merge_params (SNOWFLAKE_SCHEMA cx) (PARAMS cx)"
  by (simp_all add: unit_of_def make_task_def)

lemma refused_unit:
  "refused (unit_of e cx c f) ts =
     (if \<not> valid_key (task_id_of f) then Some (InvalidKey (task_id_of f))
      else if (c, task_id_of f) \<in> set (map (\<lambda>u. (task_group u, task_id u)) ts)
      then Some (DuplicateTaskIdFound c (task_id_of f))
      else None)"
  by (simp add: refused_def unit_of_sel)

lemma example_ids:
  "task_id_of ''1.sql'' = ''1''" "task_id_of ''2.sql'' = ''2''" "task_id_of ''x.sql'' = ''x''"
  "task_id_of ''a.sql'' = ''a''" "task_id_of ''b.sql'' = ''b''" "task_id_of ''v.sql'' = ''v''"
  "task_id_of ''t.sql'' = ''t''" "task_id_of ''v1.sql_fix.sql'' = ''v1_fix''"
  by (simp_all add: task_id_of_def)

lemma example_keys:
  "valid_key ''1''" "valid_key ''2''" "valid_key ''x''" "valid_key ''a''" "valid_key ''b''"
  "valid_key ''v''" "valid_key ''t''" "valid_key ''v1_fix''" "valid_key ''analytics_sales''"
  by (simp_all add: valid_key_def key_char_def)

lemmas run_simps =
  target_subdirs_def is_sql_def endswith_def suffix_to_prefix refused_unit unit_of_sel
  example_ids example_keys

lemma example_run:
  "yml_file example_env = Yml example_config"
  "fetch_schema example_env (conn_id_of example_config) = Inr ''DB.sales''"
  "readme example_env = Some ''# sales''"
  "valid_key (parent_dir_name example_env @ ''_'' @ directory_name example_env)"
  by (simp_all add: example_env_def fetch_schema_def example_config_def conn_id_of_def
        directory_name_def parent_dir_name_def basename_def dirname_def example_keys)

lemma example_outcome: "outcome example_env cx target_subdirs [] = Inr ()"
  by (simp add: run_simps example_env_def)

lemma example_registered:
  "registered example_env cx target_subdirs [] =
     [(''file_formats'', ''1.sql''), (''file_formats'', ''2.sql''), (''stages'', ''x.sql'')]"
  by (simp add: run_simps example_env_def)

lemma example_fst: "fst (generate example_env) = Inr ()"
  by (simp only: generate_fst [OF example_run] example_outcome)

lemma example_ok: "generate example_env = (Inr (), snd (generate example_env))"
  using example_fst by (metis prod.collapse)

lemma example_length: "length (tasks (snd (generate example_env))) = 3"
  by (simp add: generate_tasks [OF example_run] example_registered)

lemma line_3: "{(i, Suc i) | i. Suc i < (3::nat)} = {(0, 1), (1, 2)}"
  by (auto simp: less_Suc_eq numeral_3_eq_3)

section \<open>Order of the units\<close>

lemma registered_success:
  assumes "outcome e cx cs ts = Inr ()"
  shows "registered e cx cs ts = concat (map (\<lambda>c. map (Pair c) (sql_files e c)) cs)"
  using assms
proof (induction cs arbitrary: ts)
  case Nil
  show ?case by simp
next
  case (Cons c cs)
  show ?case
  proof (cases "subdirs e c")
    case NoDir
    with Cons show ?thesis by (simp add: sql_files_def)
  next
    case NoList
    with Cons.prems show ?thesis by simp
  next
    case (Dir entries)
    show ?thesis
    proof (cases "halted e cx c (sort entries) ts")
      case None
      with Dir Cons.prems Cons.IH show ?thesis
        by (simp add: sql_files_def taken_through)
    next
      case (Some err)
      with Dir Cons.prems show ?thesis by simp
    qed
  qed
qed

lemma readable_success:
  assumes "outcome e cx cs ts = Inr ()" and "c \<in> set cs" and "f \<in> set (sql_files e c)"
  shows "files e c f \<noteq> None"
  using assms
proof (induction cs arbitrary: ts)
  case Nil
  then show ?case by simp
next
  case (Cons d cs)
  show ?case
  proof (cases "subdirs e d")
    case NoDir
    with Cons.prems have "outcome e cx cs ts = Inr ()" "c \<in> set cs"
      by (auto simp: sql_files_def)
    from Cons.IH [OF this Cons.prems(3)] show ?thesis .
  next
    case NoList
    with Cons.prems show ?thesis by simp
  next
    case (Dir entries)
    show ?thesis
    proof (cases "halted e cx d (sort entries) ts")
      case (Some err)
      with Dir Cons.prems show ?thesis by simp
    next
      case None
      with Dir Cons.prems(1)
      have rest: "outcome e cx cs
          (ts @ map (unit_of e cx d) (taken e cx d (sort entries) ts)) = Inr ()"
        by simp
      show ?thesis
      proof (cases "c = d")
        case True
        with Cons.prems(3) Dir have "f \<in> set (sort entries)" "is_sql f"
          by (simp_all add: sql_files_def)
        from halted_readable [OF None this] True show ?thesis by simp
      next
        case False
        with Cons.prems(2) have "c \<in> set cs" by simp
        from Cons.IH [OF rest this Cons.prems(3)] show ?thesis .
      qed
    qed
  qed
qed

lemma generate_success:
  assumes "generate e = (Inr (), st)"
  obtains cfg schema r where "yml_file e = Yml cfg"
    and "fetch_schema e (conn_id_of cfg) = Inr schema" and "readme e = Some r"
    and "valid_key (parent_dir_name e @ ''_'' @ directory_name e)"
    and "outcome e (make_ctx e cfg schema) target_subdirs [] = Inr ()"
    and "tasks st = concat (map (\<lambda>c. map (unit_of e (make_ctx e cfg schema) c) (sql_files e c))
           target_subdirs)"
proof (cases e rule: generate_cases)
  case (early err)
  with assms show ?thesis by simp
next
  case (run cfg schema r)
  from assms have out: "outcome e (make_ctx e cfg schema) target_subdirs [] = Inr ()"
    using generate_fst [OF run] by simp
  have "tasks st = map (\<lambda>(c, f). unit_of e (make_ctx e cfg schema) c f)
      (registered e (make_ctx e cfg schema) target_subdirs [])"
    using generate_tasks [OF run] assms by simp
  then have "tasks st = concat (map (\<lambda>c. map (unit_of e (make_ctx e cfg schema) c) (sql_files e c))
           target_subdirs)"
    by (simp add: registered_success [OF out] map_concat comp_def)
  with run out show ?thesis using that by blast
qed

lemma sql_files_sorted: "sorted (sql_files e c)"
  by (simp add: sql_files_def sorted_filter [where f = "\<lambda>x. x", simplified] split: subdir.splits)

lemma sql_files_mset:
  "mset (sql_files e c) =
     (case subdirs e c of Dir entries \<Rightarrow> filter_mset (\<lambda>f. endswith f ''.sql'') (mset entries)
      | _ \<Rightarrow> {#})"
  by (simp add: sql_files_def is_sql_def [abs_def] split: subdir.splits)

lemma example_sql_files:
  "sql_files example_env ''file_formats'' = [''1.sql'', ''2.sql'']"
  "sql_files example_env ''stages'' = [''x.sql'']"
  by (simp_all add: sql_files_def example_env_def is_sql_def endswith_def suffix_to_prefix)

lemma example_plan:
  "concat (map (\<lambda>c. map (\<lambda>f. (c, task_id_of f)) (sql_files example_env c)) target_subdirs) =
     [(''file_formats'', ''1''), (''file_formats'', ''2''), (''stages'', ''x'')]"
proof -
  have other: "sql_files example_env c = []" if "c \<noteq> ''file_formats''" "c \<noteq> ''stages''" for c
    using that by (simp add: sql_files_def example_env_def)
  show ?thesis
    by (simp add: target_subdirs_def example_sql_files example_ids other)
qed

text \<open>
  C1. When generation succeeds, the units are, in creation order, the \<open>.sql\<close> files of
  the ten categories in the fixed category order, those of one category in sorted
  (lexicographic) filename order, and the edges lead from each unit to the next. With
  \<open>[2.sql, 1.sql]\<close> in one category and \<open>[x.sql]\<close> in the next, the order is
  \<open>1 \<rightarrow> 2 \<rightarrow> x\<close> (the witness).
\<close>

theorem chain_order:
  assumes "generate e = (Inr (), st)"
  shows "map (\<lambda>t. (task_group t, task_id t)) (tasks st) =
      concat (map (\<lambda>c. map (\<lambda>f. (c, task_id_of f)) (sql_files e c)) target_subdirs) \<and>
    edges st = {(i, Suc i) | i. Suc i < length (tasks st)} \<and>
    (\<forall>c. sorted (sql_files e c) \<and>
         mset (sql_files e c) =
           (case subdirs e c of
              Dir entries \<Rightarrow> filter_mset (\<lambda>f. endswith f ''.sql'') (mset entries)
            | _ \<Rightarrow> {#}))"
proof -
  from assms obtain cfg schema where
    T: "tasks st = concat (map (\<lambda>c. map (unit_of e (make_ctx e cfg schema) c) (sql_files e c))
           target_subdirs)"
    by (rule generate_success)
  have "map (\<lambda>t. (task_group t, task_id t)) (tasks st) =
      concat (map (\<lambda>c. map (\<lambda>f. (c, task_id_of f)) (sql_files e c)) target_subdirs)"
    unfolding T by (simp add: map_concat comp_def unit_of_sel)
  moreover have "edges st = {(i, Suc i) | i. Suc i < length (tasks st)}"
    using generate_edges [OF assms] by (simp add: line_def)
  ultimately show ?thesis
    using sql_files_sorted sql_files_mset by blast
qed

theorem chain_order_witness:
  "generate example_env = (Inr (), snd (generate example_env)) \<and>
   subdirs example_env ''file_formats'' = Dir [''2.sql'', ''1.sql''] \<and>
   subdirs example_env ''stages'' = Dir [''x.sql''] \<and>
   map (\<lambda>t. (task_group t, task_id t)) (tasks (snd (generate example_env))) =
     [(''file_formats'', ''1''), (''file_formats'', ''2''), (''stages'', ''x'')] \<and>
   edges (snd (generate example_env)) = {(0, 1), (1, 2)}"
proof -
  let ?st = "snd (generate example_env)"
  from chain_order [OF example_ok]
  have A: "map (\<lambda>t. (task_group t, task_id t)) (tasks ?st) =
      concat (map (\<lambda>c. map (\<lambda>f. (c, task_id_of f)) (sql_files example_env c)) target_subdirs)"
    and B: "edges ?st = {(i, Suc i) | i. Suc i < length (tasks ?st)}"
    by blast+
  note A' = A [unfolded example_plan]
  have "length (map (\<lambda>t. (task_group t, task_id t)) (tasks ?st)) = 3"
    unfolding A' by simp
  then have "length (tasks ?st) = 3" by (simp only: length_map)
  with B have C: "edges ?st = {(0, 1), (1, 2)}"
    by (simp only: line_3)
  have D: "subdirs example_env ''file_formats'' = Dir [''2.sql'', ''1.sql'']"
    "subdirs example_env ''stages'' = Dir [''x.sql'']"
    by (simp_all add: example_env_def)
  from example_ok D A' C show ?thesis by (intro conjI)
qed

text \<open>
  C7. When generation succeeds, the dependency graph is one linear chain: the edges are
  exactly those from each unit to the next one in creation order, so every unit has at most
  one direct predecessor and at most one direct successor.
\<close>

theorem linear_chain:
  assumes "generate e = (Inr (), st)"
  shows "edges st = {(i, Suc i) | i. Suc i < length (tasks st)} \<and>
    (\<forall>t. card {u. (u, t) \<in> edges st} \<le> 1 \<and> card {v. (t, v) \<in> edges st} \<le> 1)"
proof -
  have E: "edges st = line (length (tasks st))"
    using assms by (rule generate_edges)
  have "card {u. (u, t) \<in> edges st} \<le> 1" for t
    unfolding E by (rule card_sub_single [OF line_pred])
  moreover have "card {v. (t, v) \<in> edges st} \<le> 1" for t
    unfolding E by (rule card_sub_single [OF line_succ])
  ultimately show ?thesis using E by (simp add: line_def)
qed

theorem linear_chain_witness:
  "generate example_env = (Inr (), snd (generate example_env)) \<and>
   edges (snd (generate example_env)) = {(0, 1), (1, 2)} \<and>
   (\<forall>t. card {u. (u, t) \<in> edges (snd (generate example_env))} \<le> 1 \<and>
        card {v. (t, v) \<in> edges (snd (generate example_env))} \<le> 1)"
proof -
  have ok: "generate example_env = (Inr (), snd (generate example_env))"
    using example_fst by (metis prod.collapse)
  note len = example_length
  have three: "{(i, Suc i) | i. Suc i < (3::nat)} = {(0, 1), (1, 2)}"
    by (auto simp: less_Suc_eq numeral_3_eq_3)
  from linear_chain [OF ok]
  have A: "edges (snd (generate example_env)) =
      {(i, Suc i) | i. Suc i < length (tasks (snd (generate example_env)))}"
    and B: "\<forall>t. card {u. (u, t) \<in> edges (snd (generate example_env))} \<le> 1 \<and>
        card {v. (t, v) \<in> edges (snd (generate example_env))} \<le> 1"
    by blast+
  from A have "edges (snd (generate example_env)) = {(0, 1), (1, 2)}"
    by (simp only: len three)
  with ok B show ?thesis by blast
qed

section \<open>Categories without files\<close>

lemma concat_link:
  assumes "cs = pre @ a # mid @ b # post" and "\<forall>c \<in> set mid. U c = []"
    and "U a \<noteq> []" and "U b \<noteq> []"
  defines "n \<equiv> length (concat (map U (pre @ [a])))"
  shows "0 < n \<and> n < length (concat (map U cs)) \<and>
    concat (map U cs) ! (n - 1) = last (U a) \<and> concat (map U cs) ! n = hd (U b)"
proof -
  let ?P = "concat (map U pre)" and ?Q = "concat (map U post)"
  from assms(2) have M: "concat (map U mid) = []" by simp
  have C: "concat (map U cs) = (?P @ U a) @ U b @ ?Q"
    by (simp add: assms(1) M)
  have n: "n = length (?P @ U a)" by (simp add: n_def)
  from assms(3) have pos: "0 < length (?P @ U a)" by simp
  have ne: "?P @ U a \<noteq> []" using assms(3) by simp
  have "concat (map U cs) ! (n - 1) = (?P @ U a) ! (length (?P @ U a) - 1)"
    unfolding C n using pos by (simp only: nth_append) simp
  also have "\<dots> = last (?P @ U a)"
    by (simp only: last_conv_nth [OF ne])
  also have "\<dots> = last (U a)" using assms(3) by simp
  finally have 1: "concat (map U cs) ! (n - 1) = last (U a)" .
  have "concat (map U cs) ! n = (U b @ ?Q) ! 0"
    unfolding C n by (simp only: nth_append_length_plus [of _ _ 0, simplified])
  also have "\<dots> = hd (U b)" using assms(4) by (cases "U b") simp_all
  finally have 2: "concat (map U cs) ! n = hd (U b)" .
  have 3: "n < length (concat (map U cs))"
    unfolding n C using assms(4) by simp
  from 1 2 3 pos n show ?thesis by simp
qed

lemma line_out: "0 < n \<Longrightarrow> n < L \<Longrightarrow> {v. (n - 1, v) \<in> line L} = {n}"
  by (auto simp: line_def)

lemma line_in: "0 < n \<Longrightarrow> n < L \<Longrightarrow> {u. (u, n) \<in> line L} = {n - 1}"
  by (auto simp: line_def)

lemma sql_files_empty:
  "sql_files e c = [] \<longleftrightarrow>
     (case subdirs e c of
        Dir entries \<Rightarrow> \<not> list_ex (\<lambda>f. endswith f ''.sql'') entries
      | _ \<Rightarrow> True)"
  by (auto simp: sql_files_def is_sql_def list_ex_iff filter_empty_conv split: subdir.splits)

text \<open>
  C6. A category whose subdirectory is absent or has no \<open>.sql\<close> file contributes no unit
  and no edge. Where only such categories lie between two categories that have files, the
  last unit of the first is linked to the first unit of the second: that edge is the only
  one leaving the one and the only one entering the other.
\<close>

theorem empty_category_skipped:
  assumes "generate e = (Inr (), st)"
  shows "(\<forall>c. sql_files e c = [] \<longleftrightarrow>
        (case subdirs e c of
           Dir entries \<Rightarrow> \<not> list_ex (\<lambda>f. endswith f ''.sql'') entries
         | _ \<Rightarrow> True)) \<and>
    (\<forall>c. sql_files e c = [] \<longrightarrow>
        (\<forall>t \<in> set (tasks st). task_group t \<noteq> c) \<and>
        (\<forall>i j. (i, j) \<in> edges st \<longrightarrow>
           i < length (tasks st) \<and> j < length (tasks st) \<and>
           task_group (tasks st ! i) \<noteq> c \<and> task_group (tasks st ! j) \<noteq> c)) \<and>
    (\<forall>pre a mid b post.
        target_subdirs = pre @ a # mid @ b # post \<and> (\<forall>c \<in> set mid. sql_files e c = []) \<and>
        sql_files e a \<noteq> [] \<and> sql_files e b \<noteq> [] \<longrightarrow>
        (let n = length (concat (map (sql_files e) (pre @ [a]))) in
           0 < n \<and> n < length (tasks st) \<and>
           task_group (tasks st ! (n - 1)) = a \<and>
           task_id (tasks st ! (n - 1)) = task_id_of (last (sql_files e a)) \<and>
           task_group (tasks st ! n) = b \<and>
           task_id (tasks st ! n) = task_id_of (hd (sql_files e b)) \<and>
           {v. (n - 1, v) \<in> edges st} = {n} \<and> {u. (u, n) \<in> edges st} = {n - 1}))"
proof -
  from assms obtain cfg schema where
    T: "tasks st = concat (map (\<lambda>c. map (unit_of e (make_ctx e cfg schema) c) (sql_files e c))
           target_subdirs)"
    by (rule generate_success)
  let ?U = "\<lambda>c. map (unit_of e (make_ctx e cfg schema) c) (sql_files e c)"
  have E: "edges st = line (length (tasks st))"
    using assms by (rule generate_edges)
  have units: "\<forall>t \<in> set (tasks st). task_group t \<noteq> c" if "sql_files e c = []" for c
    unfolding T using that by (auto simp: unit_of_sel)
  have 2: "(\<forall>t \<in> set (tasks st). task_group t \<noteq> c) \<and>
        (\<forall>i j. (i, j) \<in> edges st \<longrightarrow>
           i < length (tasks st) \<and> j < length (tasks st) \<and>
           task_group (tasks st ! i) \<noteq> c \<and> task_group (tasks st ! j) \<noteq> c)"
    if empty: "sql_files e c = []" for c
  proof -
    have "i < length (tasks st) \<and> j < length (tasks st) \<and>
        task_group (tasks st ! i) \<noteq> c \<and> task_group (tasks st ! j) \<noteq> c"
      if "(i, j) \<in> edges st" for i j
    proof -
      from that have "i < length (tasks st)" "j < length (tasks st)"
        unfolding E by (auto simp: line_def)
      with units [OF empty] show ?thesis by (simp add: nth_mem)
    qed
    with units [OF empty] show ?thesis by blast
  qed
  have 3: "let n = length (concat (map (sql_files e) (pre @ [a]))) in
           0 < n \<and> n < length (tasks st) \<and>
           task_group (tasks st ! (n - 1)) = a \<and>
           task_id (tasks st ! (n - 1)) = task_id_of (last (sql_files e a)) \<and>
           task_group (tasks st ! n) = b \<and>
           task_id (tasks st ! n) = task_id_of (hd (sql_files e b)) \<and>
           {v. (n - 1, v) \<in> edges st} = {n} \<and> {u. (u, n) \<in> edges st} = {n - 1}"
    if split: "target_subdirs = pre @ a # mid @ b # post"
      and mid: "\<forall>c \<in> set mid. sql_files e c = []"
      and a: "sql_files e a \<noteq> []" and b: "sql_files e b \<noteq> []"
    for pre a mid b post
  proof -
    define n where "n = length (concat (map (sql_files e) (pre @ [a])))"
    have n': "n = length (concat (map ?U (pre @ [a])))"
      by (simp add: n_def length_concat comp_def)
    have m': "\<forall>c \<in> set mid. ?U c = []" using mid by simp
    have a': "?U a \<noteq> []" using a by simp
    have b': "?U b \<noteq> []" using b by simp
    note CL = concat_link [OF split m' a' b', folded T n']
    note L = CL [THEN conjunct1] CL [THEN conjunct2, THEN conjunct1]
      CL [THEN conjunct2, THEN conjunct2, THEN conjunct1]
      CL [THEN conjunct2, THEN conjunct2, THEN conjunct2]
    have la: "last (?U a) = unit_of e (make_ctx e cfg schema) a (last (sql_files e a))"
      using a by (simp add: last_map)
    have hb: "hd (?U b) = unit_of e (make_ctx e cfg schema) b (hd (sql_files e b))"
      using b by (simp add: hd_map)
    have "{v. (n - 1, v) \<in> edges st} = {n}" "{u. (u, n) \<in> edges st} = {n - 1}"
      unfolding E by (rule line_out [OF L(1,2)], rule line_in [OF L(1,2)])
    with L la hb show ?thesis
      unfolding n_def [symmetric] Let_def by (simp add: unit_of_sel)
  qed
  have 1: "\<forall>c. sql_files e c = [] \<longleftrightarrow>
        (case subdirs e c of
           Dir entries \<Rightarrow> \<not> list_ex (\<lambda>f. endswith f ''.sql'') entries
         | _ \<Rightarrow> True)"
    by (intro allI) (rule sql_files_empty)
  show ?thesis
  proof (rule conjI [OF 1], rule conjI)
    show "\<forall>c. sql_files e c = [] \<longrightarrow>
        (\<forall>t \<in> set (tasks st). task_group t \<noteq> c) \<and>
        (\<forall>i j. (i, j) \<in> edges st \<longrightarrow>
           i < length (tasks st) \<and> j < length (tasks st) \<and>
           task_group (tasks st ! i) \<noteq> c \<and> task_group (tasks st ! j) \<noteq> c)"
      by (intro allI impI) (rule 2)
    show "\<forall>pre a mid b post.
        target_subdirs = pre @ a # mid @ b # post \<and> (\<forall>c \<in> set mid. sql_files e c = []) \<and>
        sql_files e a \<noteq> [] \<and> sql_files e b \<noteq> [] \<longrightarrow>
        (let n = length (concat (map (sql_files e) (pre @ [a]))) in
           0 < n \<and> n < length (tasks st) \<and>
           task_group (tasks st ! (n - 1)) = a \<and>
           task_id (tasks st ! (n - 1)) = task_id_of (last (sql_files e a)) \<and>
           task_group (tasks st ! n) = b \<and>
           task_id (tasks st ! n) = task_id_of (hd (sql_files e b)) \<and>
           {v. (n - 1, v) \<in> edges st} = {n} \<and> {u. (u, n) \<in> edges st} = {n - 1})"
    proof (intro allI impI)
      fix pre a mid b post
      assume H: "target_subdirs = pre @ a # mid @ b # post \<and>
        (\<forall>c \<in> set mid. sql_files e c = []) \<and> sql_files e a \<noteq> [] \<and> sql_files e b \<noteq> []"
      note h = H [THEN conjunct1] H [THEN conjunct2, THEN conjunct1]
        H [THEN conjunct2, THEN conjunct2, THEN conjunct1]
        H [THEN conjunct2, THEN conjunct2, THEN conjunct2]
      show "let n = length (concat (map (sql_files e) (pre @ [a]))) in
           0 < n \<and> n < length (tasks st) \<and>
           task_group (tasks st ! (n - 1)) = a \<and>
           task_id (tasks st ! (n - 1)) = task_id_of (last (sql_files e a)) \<and>
           task_group (tasks st ! n) = b \<and>
           task_id (tasks st ! n) = task_id_of (hd (sql_files e b)) \<and>
           {v. (n - 1, v) \<in> edges st} = {n} \<and> {u. (u, n) \<in> edges st} = {n - 1}"
        by (rule 3 [OF h])
    qed
  qed
qed

lemma gaps_run:
  "yml_file gaps_env = Yml example_config"
  "fetch_schema gaps_env (conn_id_of example_config) = Inr ''DB.sales''"
  "readme gaps_env = Some ''# sales''"
  "valid_key (parent_dir_name gaps_env @ ''_'' @ directory_name gaps_env)"
  by (simp_all add: gaps_env_def example_env_def fetch_schema_def example_config_def
        conn_id_of_def directory_name_def parent_dir_name_def basename_def dirname_def
        example_keys)

lemma gaps_ok: "generate gaps_env = (Inr (), snd (generate gaps_env))"
proof -
  have "outcome gaps_env cx target_subdirs [] = Inr ()" for cx
    by (simp add: run_simps gaps_env_def example_env_def)
  with generate_fst [OF gaps_run] have "fst (generate gaps_env) = Inr ()" by simp
  then show ?thesis by (metis prod.collapse)
qed

lemma gaps_sql_files:
  "sql_files gaps_env ''file_formats'' = [''a.sql'', ''b.sql'']"
  "sql_files gaps_env ''stages'' = []"
  "sql_files gaps_env ''tables'' = []"
  "sql_files gaps_env ''views'' = [''v.sql'']"
  by (simp_all add: sql_files_def gaps_env_def is_sql_def endswith_def suffix_to_prefix)

lemma lone_run:
  "yml_file lone_env = Yml example_config"
  "fetch_schema lone_env (conn_id_of example_config) = Inr ''DB.sales''"
  "readme lone_env = Some ''# sales''"
  "valid_key (parent_dir_name lone_env @ ''_'' @ directory_name lone_env)"
  by (simp_all add: lone_env_def example_env_def fetch_schema_def example_config_def
        conn_id_of_def directory_name_def parent_dir_name_def basename_def dirname_def
        example_keys)

lemma lone_ok: "generate lone_env = (Inr (), snd (generate lone_env))"
proof -
  have "outcome lone_env cx target_subdirs [] = Inr ()" for cx
    by (simp add: run_simps lone_env_def example_env_def)
  with generate_fst [OF lone_run] have "fst (generate lone_env) = Inr ()" by simp
  then show ?thesis by (metis prod.collapse)
qed

theorem empty_category_skipped_witness:
  "generate gaps_env = (Inr (), snd (generate gaps_env)) \<and>
   subdirs gaps_env ''stages'' = NoDir \<and>
   subdirs gaps_env ''tables'' = Dir [''notes.txt''] \<and>
   ''stages'' \<notin> task_group ` set (tasks (snd (generate gaps_env))) \<and>
   ''tables'' \<notin> task_group ` set (tasks (snd (generate gaps_env))) \<and>
   task_group (tasks (snd (generate gaps_env)) ! 1) = ''file_formats'' \<and>
   task_id (tasks (snd (generate gaps_env)) ! 1) = ''b'' \<and>
   task_group (tasks (snd (generate gaps_env)) ! 2) = ''views'' \<and>
   task_id (tasks (snd (generate gaps_env)) ! 2) = ''v'' \<and>
   {v. (1, v) \<in> edges (snd (generate gaps_env))} = {2} \<and>
   {u. (u, 2) \<in> edges (snd (generate gaps_env))} = {1} \<and>
   generate lone_env = (Inr (), snd (generate lone_env)) \<and>
   subdirs lone_env ''views'' = Dir [] \<and>
   ''views'' \<notin> task_group ` set (tasks (snd (generate lone_env)))"
proof -
  let ?st = "snd (generate gaps_env)"
  note G = empty_category_skipped [OF gaps_ok]
  note G2 = G [THEN conjunct2, THEN conjunct1, rule_format]
  note G3 = G [THEN conjunct2, THEN conjunct2, rule_format]
  have split: "target_subdirs =
      [] @ ''file_formats'' # [''stages'', ''tables''] @ ''views'' #
        [''sequences'', ''streams'', ''functions'', ''procedures'', ''tasks'', ''dml'']"
    by (simp add: target_subdirs_def)
  have mid: "\<forall>c \<in> set [''stages'', ''tables'']. sql_files gaps_env c = []"
    by (simp add: gaps_sql_files)
  have a: "sql_files gaps_env ''file_formats'' \<noteq> []" and b: "sql_files gaps_env ''views'' \<noteq> []"
    by (simp_all add: gaps_sql_files)
  have n: "length (concat (map (sql_files gaps_env) ([] @ [''file_formats'']))) = 2"
    by (simp add: gaps_sql_files)
  from G3 [OF conjI [OF split conjI [OF mid conjI [OF a b]]]]
  have link: "task_group (tasks ?st ! 1) = ''file_formats'' \<and>
      task_id (tasks ?st ! 1) = ''b'' \<and>
      task_group (tasks ?st ! 2) = ''views'' \<and>
      task_id (tasks ?st ! 2) = ''v'' \<and>
      {v. (1, v) \<in> edges ?st} = {2} \<and> {u. (u, 2) \<in> edges ?st} = {1}"
    unfolding n Let_def by (simp add: gaps_sql_files example_ids)
  have s: "''stages'' \<notin> task_group ` set (tasks ?st)"
    using G2 [OF gaps_sql_files(2), THEN conjunct1] by auto
  have t: "''tables'' \<notin> task_group ` set (tasks ?st)"
    using G2 [OF gaps_sql_files(3), THEN conjunct1] by auto
  have d: "subdirs gaps_env ''stages'' = NoDir" "subdirs gaps_env ''tables'' = Dir [''notes.txt'']"
    by (simp_all add: gaps_env_def)
  note L = empty_category_skipped [OF lone_ok, THEN conjunct2, THEN conjunct1, rule_format]
  have "sql_files lone_env ''views'' = []"
    by (simp add: sql_files_def lone_env_def)
  from L [OF this, THEN conjunct1]
  have v: "''views'' \<notin> task_group ` set (tasks (snd (generate lone_env)))"
    by auto
  have dv: "subdirs lone_env ''views'' = Dir []"
    by (simp add: lone_env_def)
  from gaps_ok d s t link lone_ok dv v show ?thesis by (intro conjI) simp_all
qed

text \<open>
  C10. When \<^verbatim>\<open>README.md\<close> cannot be opened, the script stops with an error before line 49:
  no DAG object exists and no unit is registered. With a good configuration and connection
  the error is the one of the description file itself.
\<close>

theorem readme_required:
  assumes "readme e = None"
  shows "(\<exists>err. fst (generate e) = Inl err) \<and> snd (generate e) = init_state \<and>
    dag (snd (generate e)) = None \<and> tasks (snd (generate e)) = [] \<and>
    (\<forall>cfg schema. yml_file e = Yml cfg \<and> fetch_schema e (conn_id_of cfg) = Inr schema
        \<longrightarrow> fst (generate e) = Inl ReadmeNotFound)"
proof (cases e rule: generate_cases)
  case (early err)
  with assms show ?thesis
    by (auto simp: init_state_def generate_def load_config_def)
next
  case (run cfg schema r)
  with assms show ?thesis by simp
qed

theorem readme_required_witness:
  "readme (example_env\<lparr>readme := None\<rparr>) = None \<and>
   fst (generate (example_env\<lparr>readme := None\<rparr>)) = Inl ReadmeNotFound \<and>
   snd (generate (example_env\<lparr>readme := None\<rparr>)) = init_state"
proof -
  let ?e = "example_env\<lparr>readme := None\<rparr>"
  have n: "readme ?e = None" by simp
  have y: "yml_file ?e = Yml example_config" by (simp add: example_env_def)
  have s: "fetch_schema ?e (conn_id_of example_config) = Inr ''DB.sales''"
    by (simp add: fetch_schema_def example_env_def example_config_def conn_id_of_def
          directory_name_def basename_def)
  from readme_required [OF n] y s n show ?thesis by blast
qed

section \<open>Failures\<close>

lemma listable_success:
  assumes "outcome e cx cs ts = Inr ()" and "c \<in> set cs"
  shows "subdirs e c \<noteq> NoList"
  using assms
proof (induction cs arbitrary: ts)
  case Nil
  then show ?case by simp
next
  case (Cons d cs)
  show ?case
  proof (cases "subdirs e d")
    case NoDir
    with Cons.prems have "outcome e cx cs ts = Inr ()" by simp
    from Cons.IH [OF this] Cons.prems(2) NoDir show ?thesis by auto
  next
    case NoList
    with Cons.prems show ?thesis by simp
  next
    case (Dir entries)
    show ?thesis
    proof (cases "halted e cx d (sort entries) ts")
      case (Some err)
      with Dir Cons.prems show ?thesis by simp
    next
      case None
      with Dir Cons.prems(1)
      have "outcome e cx cs (ts @ map (unit_of e cx d) (taken e cx d (sort entries) ts)) = Inr ()"
        by simp
      from Cons.IH [OF this] Cons.prems(2) Dir show ?thesis by auto
    qed
  qed
qed

lemma host_registry_None: "host_registry e = None \<longleftrightarrow> (\<exists>err. fst (generate e) = Inl err)"
  by (cases "generate e") (auto simp: host_registry_def split: sum.splits)

lemma host_registry_Some: "host_registry e = Some st \<longleftrightarrow> generate e = (Inr (), st)"
  by (cases "generate e") (auto simp: host_registry_def split: sum.splits)

lemma unreadable_run:
  "yml_file unreadable_env = Yml example_config"
  "fetch_schema unreadable_env (conn_id_of example_config) = Inr ''DB.sales''"
  "readme unreadable_env = Some ''# sales''"
  "valid_key (parent_dir_name unreadable_env @ ''_'' @ directory_name unreadable_env)"
  by (simp_all add: unreadable_env_def example_env_def fetch_schema_def example_config_def
        conn_id_of_def directory_name_def parent_dir_name_def basename_def dirname_def
        example_keys)

lemma unreadable_sql_files:
  "sql_files unreadable_env ''file_formats'' = [''1.sql'', ''2.sql'']"
  by (simp add: sql_files_def unreadable_env_def example_env_def is_sql_def endswith_def
        suffix_to_prefix)

text \<open>
  The objects in memory when the script stops at the unreadable \<open>2.sql\<close>: the DAG and the
  unit of \<open>1.sql\<close>. They are objects of an import that failed; the host takes none of them.
\<close>

lemma unreadable_fst:
  "fst (generate unreadable_env) = Inl (SqlReadError ''file_formats'' ''2.sql'')"
proof -
  have "outcome unreadable_env cx target_subdirs [] =
      Inl (SqlReadError ''file_formats'' ''2.sql'')" for cx
    by (simp add: run_simps unreadable_env_def example_env_def)
  with generate_fst [OF unreadable_run] show ?thesis by simp
qed

lemma unreadable_memory:
  "map (\<lambda>t. (task_group t, task_id t)) (tasks (snd (generate unreadable_env))) =
     [(''file_formats'', ''1'')]"
proof -
  have "registered unreadable_env cx target_subdirs [] = [(''file_formats'', ''1.sql'')]" for cx
    by (simp add: run_simps unreadable_env_def example_env_def)
  then show ?thesis
    by (simp add: generate_tasks [OF unreadable_run] unit_of_sel example_ids)
qed

text \<open>
  Claim C3. The host either registers nothing or registers the pipeline of a run that
  went through, with the units of all \<open>.sql\<close> files of all categories: a run that stops
  with an error, whatever the error, registers nothing with the host. And each failure
  stops the run with an error: a missing or malformed configuration file and a connection
  that cannot be resolved (no such connection, or no \<open>database\<close> in it), each before any
  object is built and with its own error as the result of the run; a missing description
  file; a subdirectory that cannot be listed; a \<open>.sql\<close> file of a category that cannot be
  read. There is no recovery from any of them.
\<close>

theorem no_partial_pipeline:
  "(host_registry e = None \<longleftrightarrow> (\<exists>err. fst (generate e) = Inl err)) \<and>
   (host_registry e = None \<or>
    (\<exists>st. host_registry e = Some st \<and> generate e = (Inr (), st) \<and>
       map (\<lambda>t. (task_group t, task_id t)) (tasks st) =
         concat (map (\<lambda>c. map (\<lambda>f. (c, task_id_of f)) (sql_files e c)) target_subdirs))) \<and>
   (yml_file e = NoYml \<longrightarrow> generate e = (Inl ConfigNotFound, init_state)) \<and>
   (yml_file e = BadYml \<longrightarrow> generate e = (Inl ConfigMalformed, init_state)) \<and>
   (\<forall>cfg. yml_file e = Yml cfg \<and> connections e (conn_id_of cfg) = None \<longrightarrow>
      generate e = (Inl (ConnectionNotFound (conn_id_of cfg)), init_state)) \<and>
   (\<forall>cfg err. yml_file e = Yml cfg \<and> fetch_schema e (conn_id_of cfg) = Inl err \<longrightarrow>
      generate e = (Inl err, init_state)) \<and>
   (readme e = None \<longrightarrow> (\<exists>err. generate e = (Inl err, init_state))) \<and>
   (\<forall>c. c \<in> set target_subdirs \<and> subdirs e c = NoList \<longrightarrow>
      (\<exists>err. fst (generate e) = Inl err)) \<and>
   (\<forall>c f. c \<in> set target_subdirs \<and> f \<in> set (sql_files e c) \<and> files e c f = None \<longrightarrow>
      (\<exists>err. fst (generate e) = Inl err))"
proof -
  have fails: "\<exists>err. fst (generate e) = Inl err" if "fst (generate e) \<noteq> Inr ()"
    using that by (cases "fst (generate e)") auto
  have 1: "host_registry e = None \<longleftrightarrow> (\<exists>err. fst (generate e) = Inl err)"
    by (rule host_registry_None)
  have 2: "host_registry e = None \<or>
    (\<exists>st. host_registry e = Some st \<and> generate e = (Inr (), st) \<and>
       map (\<lambda>t. (task_group t, task_id t)) (tasks st) =
         concat (map (\<lambda>c. map (\<lambda>f. (c, task_id_of f)) (sql_files e c)) target_subdirs))"
  proof (cases "host_registry e")
    case None
    then show ?thesis by simp
  next
    case (Some st)
    then have ok: "generate e = (Inr (), st)" by (simp add: host_registry_Some)
    then obtain cfg schema r where
      "tasks st = concat (map (\<lambda>c. map (unit_of e (make_ctx e cfg schema) c) (sql_files e c))
           target_subdirs)"
      by (rule generate_success)
    then have "map (\<lambda>t. (task_group t, task_id t)) (tasks st) =
         concat (map (\<lambda>c. map (\<lambda>f. (c, task_id_of f)) (sql_files e c)) target_subdirs)"
      by (simp add: map_concat comp_def unit_of_sel)
    with Some ok show ?thesis by simp
  qed
  have 3: "yml_file e = NoYml \<longrightarrow> generate e = (Inl ConfigNotFound, init_state)"
    by (simp add: generate_def load_config_def)
  have 4: "yml_file e = BadYml \<longrightarrow> generate e = (Inl ConfigMalformed, init_state)"
    by (simp add: generate_def load_config_def)
  have 6: "\<forall>cfg err. yml_file e = Yml cfg \<and> fetch_schema e (conn_id_of cfg) = Inl err \<longrightarrow>
      generate e = (Inl err, init_state)"
    by (simp add: generate_def load_config_def)
  have 5: "\<forall>cfg. yml_file e = Yml cfg \<and> connections e (conn_id_of cfg) = None \<longrightarrow>
      generate e = (Inl (ConnectionNotFound (conn_id_of cfg)), init_state)"
    by (simp add: generate_def load_config_def fetch_schema_def)
  have 7: "readme e = None \<longrightarrow> (\<exists>err. generate e = (Inl err, init_state))"
  proof
    assume "readme e = None"
    then show "\<exists>err. generate e = (Inl err, init_state)"
      by (cases e rule: generate_cases) auto
  qed
  have 8: "\<forall>c. c \<in> set target_subdirs \<and> subdirs e c = NoList \<longrightarrow>
      (\<exists>err. fst (generate e) = Inl err)"
  proof (intro allI impI, elim conjE)
    fix c
    assume c: "c \<in> set target_subdirs" and n: "subdirs e c = NoList"
    have "fst (generate e) \<noteq> Inr ()"
    proof
      assume "fst (generate e) = Inr ()"
      then have "generate e = (Inr (), snd (generate e))" by (metis prod.collapse)
      then obtain cfg schema r where
        "outcome e (make_ctx e cfg schema) target_subdirs [] = Inr ()"
        by (rule generate_success)
      from listable_success [OF this c] n show False by simp
    qed
    then show "\<exists>err. fst (generate e) = Inl err" by (rule fails)
  qed
  have 9: "\<forall>c f. c \<in> set target_subdirs \<and> f \<in> set (sql_files e c) \<and> files e c f = None \<longrightarrow>
      (\<exists>err. fst (generate e) = Inl err)"
  proof (intro allI impI, elim conjE)
    fix c f
    assume c: "c \<in> set target_subdirs" and f: "f \<in> set (sql_files e c)"
      and n: "files e c f = None"
    have "fst (generate e) \<noteq> Inr ()"
    proof
      assume "fst (generate e) = Inr ()"
      then have "generate e = (Inr (), snd (generate e))" by (metis prod.collapse)
      then obtain cfg schema r where
        "outcome e (make_ctx e cfg schema) target_subdirs [] = Inr ()"
        by (rule generate_success)
      from readable_success [OF this c f] n show False by simp
    qed
    then show "\<exists>err. fst (generate e) = Inl err" by (rule fails)
  qed
  from 1 2 3 4 5 6 7 8 9 show ?thesis by (intro conjI)
qed

theorem no_partial_pipeline_witness:
  "files unreadable_env ''file_formats'' ''2.sql'' = None \<and>
   ''2.sql'' \<in> set (sql_files unreadable_env ''file_formats'') \<and>
   host_registry unreadable_env = None \<and>
   yml_file (example_env\<lparr>yml_file := NoYml\<rparr>) = NoYml \<and>
   generate (example_env\<lparr>yml_file := NoYml\<rparr>) = (Inl ConfigNotFound, init_state) \<and>
   host_registry (example_env\<lparr>yml_file := NoYml\<rparr>) = None \<and>
   host_registry example_env = Some (snd (generate example_env)) \<and>
   map (\<lambda>t. (task_group t, task_id t)) (tasks (snd (generate example_env))) =
     [(''file_formats'', ''1''), (''file_formats'', ''2''), (''stages'', ''x'')]"
proof -
  let ?n = "example_env\<lparr>yml_file := NoYml\<rparr>"
  note U = no_partial_pipeline [of unreadable_env]
  note U1 = U [THEN conjunct1]
  note U9 = U [THEN conjunct2, THEN conjunct2, THEN conjunct2, THEN conjunct2, THEN conjunct2,
    THEN conjunct2, THEN conjunct2, THEN conjunct2, rule_format]
  have c: "''file_formats'' \<in> set target_subdirs" by (simp add: target_subdirs_def)
  have f: "''2.sql'' \<in> set (sql_files unreadable_env ''file_formats'')"
    by (simp add: unreadable_sql_files)
  have n: "files unreadable_env ''file_formats'' ''2.sql'' = None"
    by (simp add: unreadable_env_def)
  from U9 [OF conjI [OF c conjI [OF f n]]] U1
  have 1: "host_registry unreadable_env = None" by simp
  note N = no_partial_pipeline [of ?n]
  note N1 = N [THEN conjunct1]
  note N3 = N [THEN conjunct2, THEN conjunct2, THEN conjunct1, rule_format]
  have y: "yml_file ?n = NoYml" by simp
  note 2 = N3 [OF y]
  from 2 N1 have 3: "host_registry ?n = None" by simp
  note E = no_partial_pipeline [of example_env]
  note E1 = E [THEN conjunct1]
  note E2 = E [THEN conjunct2, THEN conjunct1]
  from E1 example_fst have "host_registry example_env \<noteq> None" by simp
  with E2 obtain st where st: "host_registry example_env = Some st"
    "generate example_env = (Inr (), st)"
    "map (\<lambda>t. (task_group t, task_id t)) (tasks st) =
       concat (map (\<lambda>c. map (\<lambda>f. (c, task_id_of f)) (sql_files example_env c)) target_subdirs)"
    by auto
  from st(2) have s: "st = snd (generate example_env)" by simp
  from st(1) s have 4: "host_registry example_env = Some (snd (generate example_env))"
    by simp
  from st(3) s have 5: "map (\<lambda>t. (task_group t, task_id t)) (tasks (snd (generate example_env))) =
     [(''file_formats'', ''1''), (''file_formats'', ''2''), (''stages'', ''x'')]"
    by (simp only: example_plan)
  from n f 1 y 2 3 4 5 show ?thesis by (intro conjI)
qed

section \<open>The parameter map\<close>

lemma map_of_dict_set: "map_of (dict_set d k v) = (map_of d)(k \<mapsto> v)"
  by (induction d k v rule: dict_set.induct) auto

lemma keys_dict_set:
  "map fst (dict_set d k v) = (if k \<in> set (map fst d) then map fst d else map fst d @ [k])"
  by (induction d k v rule: dict_set.induct) auto

lemma dict_set_new: "k \<notin> fst ` set d \<Longrightarrow> dict_set d k v = d @ [(k, v)]"
  by (induction d k v rule: dict_set.induct) auto

lemma distinct_dict_set: "distinct (map fst d) \<Longrightarrow> distinct (map fst (dict_set d k v))"
  by (simp add: keys_dict_set)

lemma fetch_params_aux:
  "distinct (map fst d) \<Longrightarrow>
     distinct (map fst (fold (\<lambda>k d. dict_set d k (g k)) ks d)) \<and>
     map_of (fold (\<lambda>k d. dict_set d k (g k)) ks d) =
       (\<lambda>k. if k \<in> set ks then Some (g k) else map_of d k) \<and>
     set (map fst (fold (\<lambda>k d. dict_set d k (g k)) ks d)) = set (map fst d) \<union> set ks"
proof (induction ks arbitrary: d)
  case Nil
  then show ?case by simp
next
  case (Cons k ks)
  from Cons.IH [OF distinct_dict_set [OF Cons.prems], of k]
  show ?case by (auto simp: map_of_dict_set keys_dict_set fun_eq_iff)
qed

lemma fetch_params_distinct: "distinct (map fst (fetch_params e ks))"
  using fetch_params_aux [of "[]"] by (simp add: fetch_params_def)

lemma fetch_params_map_of:
  "map_of (fetch_params e ks) k = (if k \<in> set ks then Some (Variable_get e k []) else None)"
  using fetch_params_aux [of "[]" "\<lambda>k. Variable_get e k []" ks] by (simp add: fetch_params_def)

lemma fetch_params_keys: "fst ` set (fetch_params e ks) = set ks"
  using fetch_params_aux [of "[]" "\<lambda>k. Variable_get e k []" ks] by (simp add: fetch_params_def)

lemma fold_fresh:
  assumes "distinct (map fst ps)" and "fst ` set ps \<inter> fst ` set d = {}"
  shows "fold (\<lambda>(k, v) d. dict_set d k v) ps d = d @ ps"
  using assms
proof (induction ps arbitrary: d)
  case Nil
  show ?case by simp
next
  case (Cons p ps)
  obtain k v where p: "p = (k, v)" by (cases p)
  from Cons.prems p have new: "k \<notin> fst ` set d" by auto
  have "fold (\<lambda>(k, v) d. dict_set d k v) ps (d @ [(k, v)]) = (d @ [(k, v)]) @ ps"
    using Cons.prems p by (intro Cons.IH) (auto simp: image_iff)
  then show ?case by (simp add: p dict_set_new [OF new])
qed

lemma fold_head:
  assumes "distinct (map fst ps)"
  shows "fold (\<lambda>(k, v) d. dict_set d k v) ps ((sn, x) # rest) =
     (sn, case map_of ps sn of None \<Rightarrow> x | Some v \<Rightarrow> v) #
       fold (\<lambda>(k, v) d. dict_set d k v) (filter (\<lambda>(k, v). k \<noteq> sn) ps) rest"
  using assms
proof (induction ps arbitrary: x rest)
  case Nil
  show ?case by simp
next
  case (Cons p ps)
  obtain k v where p: "p = (k, v)" by (cases p)
  show ?case
  proof (cases "k = sn")
    case True
    with Cons.prems p have "map_of ps sn = None"
      by (auto simp: map_of_eq_None_iff image_iff)
    with True p Cons.prems show ?thesis by (simp add: Cons.IH)
  next
    case False
    with p Cons.prems show ?thesis by (simp add: Cons.IH)
  qed
qed

lemma merge_params_eq:
  assumes "distinct (map fst ps)"
  shows "merge_params S ps =
     (''schema_name'', case map_of ps ''schema_name'' of None \<Rightarrow> S | Some v \<Rightarrow> v) #
       filter (\<lambda>(k, v). k \<noteq> ''schema_name'') ps"
proof -
  have "distinct (map fst (filter (\<lambda>(k, v). k \<noteq> ''schema_name'') ps))"
    using assms by (simp add: distinct_map_filter)
  then have "fold (\<lambda>(k, v) d. dict_set d k v) (filter (\<lambda>(k, v). k \<noteq> ''schema_name'') ps) [] =
      filter (\<lambda>(k, v). k \<noteq> ''schema_name'') ps"
    using fold_fresh [of "filter (\<lambda>(k, v). k \<noteq> ''schema_name'') ps" "[]"] by simp
  then show ?thesis
    by (simp only: merge_params_def fold_head [OF assms])
qed

lemma map_of_filter_key:
  "map_of (filter (\<lambda>(k, v). k \<noteq> sn) ps) k = (if k = sn then None else map_of ps k)"
  by (induction ps) auto

lemma generate_params:
  assumes "generate e = (r, st)" and "t \<in> set (tasks st)"
    and "yml_file e = Yml cfg" and "fetch_schema e (conn_id_of cfg) = Inr schema"
  shows "params t = merge_params schema (fetch_params e (param_keys cfg))"
proof (cases e rule: generate_cases)
  case (early err)
  with assms show ?thesis by (auto simp: init_state_def)
next
  case (run cfg' schema' rd)
  from generate_tasks [OF run] assms(1,2)
  obtain c f where "t = unit_of e (make_ctx e cfg' schema') c f"
    by auto
  with run assms(3,4) show ?thesis by (simp add: unit_of_sel make_ctx_def)
qed

lemma collision_keys:
  "param_keys (example_config\<lparr>cfg_PARAMS := Some [''schema_name'']\<rparr>) = [''schema_name'']"
  by (simp add: param_keys_def)

lemma collision_run:
  "yml_file collision_env = Yml (example_config\<lparr>cfg_PARAMS := Some [''schema_name'']\<rparr>)"
  "fetch_schema collision_env
     (conn_id_of (example_config\<lparr>cfg_PARAMS := Some [''schema_name'']\<rparr>)) = Inr ''DB.sales''"
  "readme collision_env = Some ''# sales''"
  "valid_key (parent_dir_name collision_env @ ''_'' @ directory_name collision_env)"
  by (simp_all add: collision_env_def example_env_def fetch_schema_def example_config_def
        conn_id_of_def directory_name_def parent_dir_name_def basename_def dirname_def
        example_keys)

lemma collision_registered:
  "registered collision_env cx target_subdirs [] =
     [(''file_formats'', ''1.sql''), (''file_formats'', ''2.sql''), (''stages'', ''x.sql'')]"
  by (simp add: run_simps collision_env_def example_env_def)

lemma collision_fst: "fst (generate collision_env) = Inr ()"
proof -
  have "outcome collision_env cx target_subdirs [] = Inr ()" for cx
    by (simp add: run_simps collision_env_def example_env_def)
  with generate_fst [OF collision_run] show ?thesis by simp
qed

lemma collision_length: "length (tasks (snd (generate collision_env))) = 3"
  by (simp add: generate_tasks [OF collision_run] collision_registered)

lemma collision_value: "Variable_get collision_env ''schema_name'' [] = ''other''"
  by (simp add: Variable_get_def collision_env_def)

lemma collision_merged:
  "merge_params ''DB.sales'' (fetch_params collision_env [''schema_name'']) =
     [(''schema_name'', ''other'')]"
  by (simp add: merge_params_def fetch_params_def collision_value)

lemma collision_params:
  "params (tasks (snd (generate collision_env)) ! 0) = [(''schema_name'', ''other'')]"
  by (simp add: generate_tasks [OF collision_run] collision_registered unit_of_sel
        make_ctx_def collision_keys collision_merged)

text \<open>
  Claim C4, as the code has it. In the parameter map of every unit the entry
  \<open>schema_name\<close> comes first, followed by the externally resolved parameters in their
  order. When a declared parameter is itself named \<open>schema_name\<close>, the entry keeps its
  first position but holds the resolved value of that parameter: the resolved parameter,
  not the explicit schema name, wins the collision.
\<close>

theorem merge_order:
  assumes "generate e = (r, st)" and "t \<in> set (tasks st)"
    and "yml_file e = Yml cfg" and "fetch_schema e (conn_id_of cfg) = Inr schema"
  shows "params t =
     (''schema_name'',
      if ''schema_name'' \<in> set (param_keys cfg) then Variable_get e ''schema_name'' []
      else schema) #
     filter (\<lambda>(k, v). k \<noteq> ''schema_name'') (fetch_params e (param_keys cfg))"
  by (simp add: generate_params [OF assms] merge_params_eq [OF fetch_params_distinct]
        fetch_params_map_of)

theorem merge_order_witness:
  "tasks (snd (generate collision_env)) ! 0 \<in> set (tasks (snd (generate collision_env))) \<and>
   param_keys (example_config\<lparr>cfg_PARAMS := Some [''schema_name'']\<rparr>) = [''schema_name''] \<and>
   fetch_schema collision_env
     (conn_id_of (example_config\<lparr>cfg_PARAMS := Some [''schema_name'']\<rparr>)) = Inr ''DB.sales'' \<and>
   params (tasks (snd (generate collision_env)) ! 0) = [(''schema_name'', ''other'')]"
proof -
  let ?st = "snd (generate collision_env)"
  have mem: "tasks ?st ! 0 \<in> set (tasks ?st)"
    using collision_length by simp
  have rhs: "(''schema_name'',
      if ''schema_name'' \<in> set [''schema_name''] then Variable_get collision_env ''schema_name'' []
      else ''DB.sales'') #
     filter (\<lambda>(k, v). k \<noteq> ''schema_name'') (fetch_params collision_env [''schema_name'']) =
     [(''schema_name'', ''other'')]"
    by (simp add: fetch_params_def collision_value)
  have "generate collision_env = (fst (generate collision_env), ?st)" by simp
  from merge_order [OF this mem collision_run(1,2)]
  have "params (tasks ?st ! 0) = [(''schema_name'', ''other'')]"
    by (simp only: collision_keys rhs)
  with mem collision_keys collision_run(2) show ?thesis by (intro conjI)
qed

text \<open>
  Claim C4 as the specification words it, refuted: it lets the explicit schema name win
  the collision. With \<open>PARAMS: [schema_name]\<close> and the variable \<open>schema_name\<close> set to
  \<open>other\<close>, the schema resolves to \<open>DB.sales\<close>, generation succeeds, and the
  entry \<open>schema_name\<close> of the first unit holds \<open>other\<close>.
\<close>

theorem schema_name_collision_counterexample:
  "param_keys (example_config\<lparr>cfg_PARAMS := Some [''schema_name'']\<rparr>) = [''schema_name''] \<and>
   fetch_schema collision_env
     (conn_id_of (example_config\<lparr>cfg_PARAMS := Some [''schema_name'']\<rparr>)) = Inr ''DB.sales'' \<and>
   fst (generate collision_env) = Inr () \<and>
   map_of (params (tasks (snd (generate collision_env)) ! 0)) ''schema_name'' = Some ''other'' \<and>
   map_of (params (tasks (snd (generate collision_env)) ! 0)) ''schema_name'' \<noteq> Some ''DB.sales''"
  by (simp add: collision_keys collision_run(2) collision_fst collision_params)

text \<open>
  Claim C5, as the code has it. Every unit carries the same parameter map. Its keys are
  distinct: the declared parameter names and \<open>schema_name\<close>. Each declared name is mapped
  to the value of its variable, the empty string when the variable is unset. The key
  \<open>schema_name\<close> is mapped to the resolved schema unless \<open>schema_name\<close> is itself a
  declared parameter: then it is mapped to the value of that variable. With
  \<open>PARAMS: [p1, p2]\<close>, \<open>p1\<close> set to \<open>v1\<close> and \<open>p2\<close> unset the map is
  \<open>{schema_name: <resolved>, p1: "v1", p2: ""}\<close>.
\<close>

theorem shared_params:
  assumes "generate e = (r, st)" and "t \<in> set (tasks st)"
    and "yml_file e = Yml cfg" and "fetch_schema e (conn_id_of cfg) = Inr schema"
  shows "(\<forall>t' \<in> set (tasks st). params t' = params t) \<and>
    distinct (map fst (params t)) \<and>
    (\<forall>k \<in> set (param_keys cfg).
        map_of (params t) k = Some (case variables e k of None \<Rightarrow> [] | Some v \<Rightarrow> v)) \<and>
    fst ` set (params t) = insert ''schema_name'' (set (param_keys cfg)) \<and>
    map_of (params t) ''schema_name'' =
      Some (if ''schema_name'' \<in> set (param_keys cfg)
            then (case variables e ''schema_name'' of None \<Rightarrow> [] | Some v \<Rightarrow> v)
            else schema) \<and>
    (param_keys cfg = [''p1'', ''p2''] \<and> variables e ''p1'' = Some ''v1'' \<and>
     variables e ''p2'' = None \<longrightarrow>
        params t = [(''schema_name'', schema), (''p1'', ''v1''), (''p2'', [])])"
proof -
  let ?ps = "fetch_params e (param_keys cfg)"
  have P: "params u = merge_params schema ?ps" if "u \<in> set (tasks st)" for u
    using generate_params [OF assms(1) that assms(3,4)] .
  note M = merge_params_eq [OF fetch_params_distinct, of schema e "param_keys cfg"]
  have 1: "\<forall>t' \<in> set (tasks st). params t' = params t"
    using P assms(2) by simp
  have mo: "map_of (params t) k =
      (if k \<in> set (param_keys cfg) then Some (Variable_get e k [])
       else if k = ''schema_name'' then Some schema else None)" for k
    unfolding P [OF assms(2)] M
    by (simp add: map_of_filter_key fetch_params_map_of)
  have 2: "\<forall>k \<in> set (param_keys cfg).
        map_of (params t) k = Some (case variables e k of None \<Rightarrow> [] | Some v \<Rightarrow> v)"
    by (simp add: mo Variable_get_def)
  have 3: "fst ` set (params t) = insert ''schema_name'' (set (param_keys cfg))"
  proof -
    have "fst ` set (params t) = dom (map_of (params t))"
      by (simp add: dom_map_of_conv_image_fst)
    also have "\<dots> = insert ''schema_name'' (set (param_keys cfg))"
      by (auto simp: mo dom_def split: if_splits)
    finally show ?thesis .
  qed
  have 4: "map_of (params t) ''schema_name'' =
      Some (if ''schema_name'' \<in> set (param_keys cfg)
            then (case variables e ''schema_name'' of None \<Rightarrow> [] | Some v \<Rightarrow> v)
            else schema)"
    by (simp add: mo Variable_get_def)
  have 5: "param_keys cfg = [''p1'', ''p2''] \<and> variables e ''p1'' = Some ''v1'' \<and>
     variables e ''p2'' = None \<longrightarrow>
        params t = [(''schema_name'', schema), (''p1'', ''v1''), (''p2'', [])]"
    unfolding P [OF assms(2)]
    by (simp add: merge_params_def fetch_params_def Variable_get_def)
  have 6: "distinct (map fst (params t))"
  proof -
    have "distinct (map fst (filter (\<lambda>(k, v). k \<noteq> ''schema_name'') ?ps))"
      using fetch_params_distinct [of e "param_keys cfg"] by (simp add: distinct_map_filter)
    then show ?thesis
      unfolding P [OF assms(2)] M by (auto simp: image_iff)
  qed
  from 1 6 2 3 4 5 show ?thesis by (intro conjI)
qed

theorem shared_params_witness:
  "generate example_env = (Inr (), snd (generate example_env)) \<and>
   param_keys example_config = [''p1'', ''p2''] \<and>
   variables example_env ''p1'' = Some ''v1'' \<and> variables example_env ''p2'' = None \<and>
   params (tasks (snd (generate example_env)) ! 0) =
     [(''schema_name'', ''DB.sales''), (''p1'', ''v1''), (''p2'', [])] \<and>
   params (tasks (snd (generate example_env)) ! 2) =
     params (tasks (snd (generate example_env)) ! 0) \<and>
   map_of (params (tasks (snd (generate example_env)) ! 0)) ''schema_name'' = Some ''DB.sales'' \<and>
   map_of (params (tasks (snd (generate example_env)) ! 0)) ''p2'' = Some []"
proof -
  let ?st = "snd (generate example_env)"
  have mem: "tasks ?st ! 0 \<in> set (tasks ?st)" "tasks ?st ! 2 \<in> set (tasks ?st)"
    using example_length by simp_all
  have k: "param_keys example_config = [''p1'', ''p2'']"
    by (simp add: param_keys_def example_config_def)
  have v: "variables example_env ''p1'' = Some ''v1''" "variables example_env ''p2'' = None"
    by (simp_all add: example_env_def)
  note R = shared_params [OF example_ok mem(1) example_run(1,2)]
  note R1 = R [THEN conjunct1]
  note R3 = R [THEN conjunct2, THEN conjunct2, THEN conjunct1]
  note R5 = R [THEN conjunct2, THEN conjunct2, THEN conjunct2, THEN conjunct2, THEN conjunct1]
  note R6 = R [THEN conjunct2, THEN conjunct2, THEN conjunct2, THEN conjunct2, THEN conjunct2]
  have 1: "params (tasks ?st ! 0) =
      [(''schema_name'', ''DB.sales''), (''p1'', ''v1''), (''p2'', [])]"
    by (rule R6 [THEN mp]) (intro conjI k v)
  have 2: "params (tasks ?st ! 2) = params (tasks ?st ! 0)"
    using R1 mem(2) by (rule bspec)
  have 3: "map_of (params (tasks ?st ! 0)) ''schema_name'' = Some ''DB.sales''"
    using R5 by (simp add: k)
  have "''p2'' \<in> set (param_keys example_config)" by (simp add: k)
  from R3 [THEN bspec, OF this]
  have 4: "map_of (params (tasks ?st ! 0)) ''p2'' = Some []"
    by (simp add: v)
  from example_ok k v 1 2 3 4 show ?thesis by (intro conjI)
qed

text \<open>
  Claim C5 as the specification words it, refuted: it puts the resolved schema under
  \<open>schema_name\<close> in the map of every unit. With \<open>PARAMS: [schema_name]\<close> and the variable
  \<open>schema_name\<close> set to \<open>other\<close>, generation succeeds with three units, the schema
  resolves to \<open>DB.sales\<close>, and the map of each unit is \<open>{schema_name: "other"}\<close>: the
  resolved schema is in none of them.
\<close>

theorem shared_params_counterexample:
  "fst (generate collision_env) = Inr () \<and>
   length (tasks (snd (generate collision_env))) = 3 \<and>
   fetch_schema collision_env
     (conn_id_of (example_config\<lparr>cfg_PARAMS := Some [''schema_name'']\<rparr>)) = Inr ''DB.sales'' \<and>
   map params (tasks (snd (generate collision_env))) =
     [[(''schema_name'', ''other'')], [(''schema_name'', ''other'')],
      [(''schema_name'', ''other'')]] \<and>
   (''schema_name'', ''DB.sales'') \<notin> set (concat (map params (tasks (snd (generate collision_env)))))"
proof -
  have "map params (tasks (snd (generate collision_env))) =
     [[(''schema_name'', ''other'')], [(''schema_name'', ''other'')],
      [(''schema_name'', ''other'')]]"
    by (simp add: generate_tasks [OF collision_run] collision_registered unit_of_sel
          make_ctx_def collision_keys collision_merged)
  with collision_fst collision_length collision_run(2) show ?thesis by simp
qed

section \<open>Identifiers\<close>

lemma no_overlap:
  assumes "\<not> prefix ''.sql'' (c # cs)"
  shows "\<not> prefix ''.sql'' ((c # cs) @ ''.sql'')"
proof
  assume "prefix ''.sql'' ((c # cs) @ ''.sql'')"
  then consider "prefix ''.sql'' (c # cs)"
    | us where "''.sql'' = (c # cs) @ us" "prefix us ''.sql''"
    unfolding prefix_append by blast
  then show False
  proof cases
    case 1
    with assms show False by (rule notE)
  next
    case 2
    from 2(1) have "(c # cs, us) \<in> {(''.'', ''sql''), (''.s'', ''ql''), (''.sq'', ''l''), (''.sql'', [])}"
      by (auto simp: Cons_eq_append_conv append_eq_Cons_conv)
    with 2(2) assms show False by auto
  qed
qed

lemma replace_skip:
  "\<not> prefix old (c # xs) \<Longrightarrow> replace (c # xs) old new = c # replace xs old new"
  by simp

lemma replace_plain:
  assumes "\<not> sublist ''.sql'' stem"
  shows "replace (stem @ ''.sql'') ''.sql'' [] = stem"
  using assms
proof (induction stem)
  case Nil
  show ?case by simp
next
  case (Cons c cs)
  from Cons.prems sublist_Cons_right [of "''.sql''" c cs]
  have np: "\<not> prefix ''.sql'' (c # cs)" and ns: "\<not> sublist ''.sql'' cs"
    by blast+
  have "replace ((c # cs) @ ''.sql'') ''.sql'' [] = c # replace (cs @ ''.sql'') ''.sql'' []"
    using no_overlap [OF np] unfolding append_Cons by (rule replace_skip)
  also note Cons.IH [OF ns]
  finally show ?case .
qed

lemma task_id_of_plain: "\<not> sublist ''.sql'' stem \<Longrightarrow> task_id_of (stem @ ''.sql'') = stem"
  by (simp add: task_id_of_def replace_plain)

lemma inner_run:
  "yml_file inner_env = Yml example_config"
  "fetch_schema inner_env (conn_id_of example_config) = Inr ''DB.sales''"
  "readme inner_env = Some ''# sales''"
  "valid_key (parent_dir_name inner_env @ ''_'' @ directory_name inner_env)"
  by (simp_all add: inner_env_def example_env_def fetch_schema_def example_config_def
        conn_id_of_def directory_name_def parent_dir_name_def basename_def dirname_def
        example_keys)

lemma inner_outcome: "outcome inner_env cx target_subdirs [] = Inr ()"
  by (simp add: run_simps inner_env_def example_env_def)

lemma inner_registered:
  "registered inner_env cx target_subdirs [] = [(''tables'', ''v1.sql_fix.sql'')]"
  by (simp add: run_simps inner_env_def example_env_def)

text \<open>
  Two files of one category whose names differ by an inner \<open>.sql\<close> get the same
  identifier, and the host refuses the second unit.
\<close>

lemma twin_run:
  "yml_file twin_env = Yml example_config"
  "fetch_schema twin_env (conn_id_of example_config) = Inr ''DB.sales''"
  "readme twin_env = Some ''# sales''"
  "valid_key (parent_dir_name twin_env @ ''_'' @ directory_name twin_env)"
  by (simp_all add: twin_env_def example_env_def fetch_schema_def example_config_def
        conn_id_of_def directory_name_def parent_dir_name_def basename_def dirname_def
        example_keys)

lemma twin_refused: "fst (generate twin_env) = Inl (DuplicateTaskIdFound ''tables'' ''a'')"
proof -
  have id: "task_id_of ''a.sql.sql'' = ''a''" by (simp add: task_id_of_def)
  have "outcome twin_env cx target_subdirs [] = Inl (DuplicateTaskIdFound ''tables'' ''a'')" for cx
    by (simp add: run_simps id twin_env_def example_env_def)
  with generate_fst [OF twin_run] show ?thesis by simp
qed

text \<open>
  Claim C8. The identifier of a unit should be the filename without its trailing \<open>.sql\<close>.
  Line 92 removes every occurrence of \<open>.sql\<close>: the file \<open>v1.sql_fix.sql\<close> becomes
  the unit \<open>v1_fix\<close>, not \<open>v1.sql_fix\<close>.
\<close>

theorem task_id_inner_sql:
  "subdirs inner_env ''tables'' = Dir [''v1.sql_fix.sql''] \<and>
   fst (generate inner_env) = Inr () \<and>
   length (tasks (snd (generate inner_env))) = 1 \<and>
   task_id (tasks (snd (generate inner_env)) ! 0) = ''v1_fix'' \<and>
   task_id (tasks (snd (generate inner_env)) ! 0) \<noteq> ''v1.sql_fix''"
proof -
  have "subdirs inner_env ''tables'' = Dir [''v1.sql_fix.sql'']"
    by (simp add: inner_env_def)
  moreover have "fst (generate inner_env) = Inr ()"
    by (simp only: generate_fst [OF inner_run] inner_outcome)
  moreover have "tasks (snd (generate inner_env)) =
      [unit_of inner_env (make_ctx inner_env example_config ''DB.sales'')
         ''tables'' ''v1.sql_fix.sql'']"
    by (simp add: generate_tasks [OF inner_run] inner_registered)
  ultimately show ?thesis
    by (simp add: unit_of_sel example_ids)
qed

section \<open>The text of a unit\<close>

lemma upper_char_U: "upper_char c = CHR ''U'' \<longleftrightarrow> c \<in> {CHR ''u'', CHR ''U''}"
  by (auto simp: upper_char_def split: if_splits)

lemma upper_char_S: "upper_char c = CHR ''S'' \<longleftrightarrow> c \<in> {CHR ''s'', CHR ''S''}"
  by (auto simp: upper_char_def split: if_splits)

lemma upper_char_E: "upper_char c = CHR ''E'' \<longleftrightarrow> c \<in> {CHR ''e'', CHR ''E''}"
  by (auto simp: upper_char_def split: if_splits)

text \<open>
  What line 98 tests: the letters \<open>u\<close>, \<open>s\<close>, \<open>e\<close>, each in either case, next to each
  other anywhere in the text, inside a word as well as on their own.
\<close>

lemma contains_use_iff:
  "str_in ''USE'' (upper body) \<longleftrightarrow>
     (\<exists>pre u s e post. body = pre @ [u, s, e] @ post \<and>
        u \<in> {CHR ''u'', CHR ''U''} \<and> s \<in> {CHR ''s'', CHR ''S''} \<and> e \<in> {CHR ''e'', CHR ''E''})"
proof
  assume "str_in ''USE'' (upper body)"
  then obtain ps ss where "map upper_char body = ps @ ''USE'' @ ss"
    by (auto simp: str_in_def upper_def sublist_def)
  then have "\<exists>pre u s e post. body = pre @ [u, s, e] @ post \<and> upper_char u = CHR ''U'' \<and>
      upper_char s = CHR ''S'' \<and> upper_char e = CHR ''E''"
    by (fastforce simp: map_eq_append_conv map_eq_Cons_conv)
  then show "\<exists>pre u s e post. body = pre @ [u, s, e] @ post \<and>
        u \<in> {CHR ''u'', CHR ''U''} \<and> s \<in> {CHR ''s'', CHR ''S''} \<and> e \<in> {CHR ''e'', CHR ''E''}"
    unfolding upper_char_U upper_char_S upper_char_E .
next
  assume "\<exists>pre u s e post. body = pre @ [u, s, e] @ post \<and>
        u \<in> {CHR ''u'', CHR ''U''} \<and> s \<in> {CHR ''s'', CHR ''S''} \<and> e \<in> {CHR ''e'', CHR ''E''}"
  then obtain pre u s e post where body: "body = pre @ [u, s, e] @ post"
    and "upper_char u = CHR ''U''" "upper_char s = CHR ''S''" "upper_char e = CHR ''E''"
    unfolding upper_char_U upper_char_S upper_char_E by blast
  then have "map upper_char body = map upper_char pre @ ''USE'' @ map upper_char post"
    by simp
  then show "str_in ''USE'' (upper body)"
    unfolding str_in_def upper_def sublist_def by blast
qed

lemma registered_mem:
  assumes "(c, f) \<in> set (registered e cx cs ts)"
  shows "c \<in> set cs \<and> f \<in> set (sql_files e c) \<and> files e c f \<noteq> None"
  using assms
proof (induction cs arbitrary: ts)
  case Nil
  then show ?case by simp
next
  case (Cons d cs)
  show ?case
  proof (cases "subdirs e d")
    case NoDir
    with Cons.prems have "(c, f) \<in> set (registered e cx cs ts)" by simp
    from Cons.IH [OF this] show ?thesis by simp
  next
    case NoList
    with Cons.prems show ?thesis by simp
  next
    case (Dir entries)
    from Cons.prems Dir
    consider "c = d" "f \<in> set (taken e cx d (sort entries) ts)"
      | "(c, f) \<in> set (registered e cx cs
            (ts @ map (unit_of e cx d) (taken e cx d (sort entries) ts)))"
      by (auto split: if_splits)
    then show ?thesis
    proof cases
      case 1
      from taken_mem [OF 1(2)] 1(1) Dir show ?thesis by (simp add: sql_files_def)
    next
      case 2
      from Cons.IH [OF 2] show ?thesis by simp
    qed
  qed
qed

text \<open>
  The text of every unit is the text of its file, with \<open>USE <schema>;\<close> and a newline
  before it when line 98 does not find the letters, and as it is otherwise.
\<close>

lemma unit_sql:
  assumes "generate e = (r, st)" and "t \<in> set (tasks st)"
  obtains cfg schema c f body where "yml_file e = Yml cfg"
    and "fetch_schema e (conn_id_of cfg) = Inr schema"
    and "c \<in> set target_subdirs" and "f \<in> set (sql_files e c)" and "files e c f = Some body"
    and "task_group t = c" and "task_id t = task_id_of f"
    and "sql t = (if str_in ''USE'' (upper body) then body
                  else ''USE '' @ schema @ [CHR '';'', CHR 0x0A] @ body)"
proof (cases e rule: generate_cases)
  case (early err)
  with assms show ?thesis by (auto simp: init_state_def)
next
  case (run cfg schema rd)
  let ?cx = "make_ctx e cfg schema"
  from generate_tasks [OF run] assms
  obtain c f where cf: "(c, f) \<in> set (registered e ?cx target_subdirs [])"
    and t: "t = unit_of e ?cx c f"
    by auto
  from registered_mem [OF cf] obtain body where m: "c \<in> set target_subdirs"
    "f \<in> set (sql_files e c)" and b: "files e c f = Some body"
    by auto
  have "sql t = (if str_in ''USE'' (upper body) then body
                  else ''USE '' @ schema @ [CHR '';'', CHR 0x0A] @ body)"
    by (simp add: t unit_of_def b make_task_def inject_schema_def make_ctx_def)
  moreover have "task_group t = c" "task_id t = task_id_of f"
    by (simp_all add: t unit_of_sel)
  ultimately show ?thesis using run(1,2) m b that by blast
qed

text \<open>The texts of the example, which hold no such letters, get the statement once.\<close>

lemma example_sql:
  "map sql (tasks (snd (generate example_env))) =
     [''USE DB.sales;'' @ [CHR 0x0A] @ ''SELECT 1'',
      ''USE DB.sales;'' @ [CHR 0x0A] @ ''SELECT 1'',
      ''USE DB.sales;'' @ [CHR 0x0A] @ ''SELECT 1'']"
proof -
  have "\<not> str_in ''USE'' (upper ''SELECT 1'')"
    by (simp add: str_in_def upper_def upper_char_def sublist_Cons_right)
  moreover have "files example_env c f = Some ''SELECT 1''" for c f
    by (simp add: example_env_def)
  ultimately show ?thesis
    by (simp add: generate_tasks [OF example_run] example_registered unit_of_def
          make_task_def inject_schema_def make_ctx_def)
qed

lemma users_run:
  "yml_file users_env = Yml example_config"
  "fetch_schema users_env (conn_id_of example_config) = Inr ''DB.sales''"
  "readme users_env = Some ''# sales''"
  "valid_key (parent_dir_name users_env @ ''_'' @ directory_name users_env)"
  by (simp_all add: users_env_def example_env_def fetch_schema_def example_config_def
        conn_id_of_def directory_name_def parent_dir_name_def basename_def dirname_def
        example_keys)

lemma users_ids: "task_id_of ''active.sql'' = ''active''" "valid_key ''active''"
  by (simp_all add: task_id_of_def valid_key_def key_char_def)

lemma users_found: "str_in ''USE'' (upper ''SELECT id FROM users;'')"
  unfolding contains_use_iff
  by (rule exI [of _ "''SELECT id FROM ''"], rule exI [of _ "CHR ''u''"],
      rule exI [of _ "CHR ''s''"], rule exI [of _ "CHR ''e''"], rule exI [of _ "''rs;''"]) simp

text \<open>
  Claim C2. A text that holds no schema selection should get one. Line 98 looks for the
  letters \<open>USE\<close> anywhere in the text: \<open>SELECT id FROM users;\<close> holds them inside the
  word \<open>users\<close>, so it reaches the unit as it is, with no schema selected.
\<close>

theorem schema_check_users:
  "files users_env ''views'' ''active.sql'' = Some ''SELECT id FROM users;'' \<and>
   fetch_schema users_env (conn_id_of example_config) = Inr ''DB.sales'' \<and>
   fst (generate users_env) = Inr () \<and>
   length (tasks (snd (generate users_env))) = 1 \<and>
   sql (tasks (snd (generate users_env)) ! 0) = ''SELECT id FROM users;'' \<and>
   sql (tasks (snd (generate users_env)) ! 0) \<noteq>
     ''USE DB.sales;'' @ [CHR 0x0A] @ ''SELECT id FROM users;''"
proof -
  have f: "files users_env ''views'' ''active.sql'' = Some ''SELECT id FROM users;''"
    by (simp add: users_env_def)
  have "outcome users_env cx target_subdirs [] = Inr ()" for cx
    by (simp add: run_simps users_ids users_env_def example_env_def)
  with generate_fst [OF users_run] have ok: "fst (generate users_env) = Inr ()" by simp
  have reg: "registered users_env cx target_subdirs [] = [(''views'', ''active.sql'')]" for cx
    by (simp add: run_simps users_ids users_env_def example_env_def)
  have ts: "tasks (snd (generate users_env)) =
      [unit_of users_env (make_ctx users_env example_config ''DB.sales'') ''views'' ''active.sql'']"
    by (simp add: generate_tasks [OF users_run] reg)
  have s: "sql (tasks (snd (generate users_env)) ! 0) = ''SELECT id FROM users;''"
    unfolding ts by (simp add: unit_of_def f make_task_def inject_schema_def users_found)
  from f users_run(2) ok ts s show ?thesis by simp
qed

section \<open>Determinism\<close>

lemma sort_same: "mset xs = mset ys \<Longrightarrow> sort xs = sort (ys :: string list)"
  by (rule properties_for_sort) simp_all

lemma same_entries_cases:
  assumes "same_entries a b"
  obtains "a = NoDir" "b = NoDir" | "a = NoList" "b = NoList"
  | xs ys where "a = Dir xs" "b = Dir ys" "sort xs = sort ys"
  using assms by (cases a; cases b) (auto dest: sort_same)

lemma unit_of_cong:
  assumes "files e' = files e"
  shows "unit_of e' cx c f = unit_of e cx c f"
  by (simp add: unit_of_def assms)

lemma taken_cong:
  assumes "files e' = files e"
  shows "taken e' cx c fs ts = taken e cx c fs ts"
  by (induction fs arbitrary: ts) (simp_all add: unit_of_cong [OF assms] assms)

lemma halted_cong:
  assumes "files e' = files e"
  shows "halted e' cx c fs ts = halted e cx c fs ts"
  by (induction fs arbitrary: ts)
     (simp_all add: unit_of_cong [OF assms] assms split: option.splits)

lemma filled_dag:
  assumes "files e' = files e"
  shows "filled e' cx c fs (st\<lparr>dag := d\<rparr>) = (filled e cx c fs st)\<lparr>dag := d\<rparr>"
  by (simp add: filled_def taken_cong [OF assms] unit_of_cong [OF assms])

lemma group_of_dag:
  assumes "files e' = files e"
  shows "group_of e' cx c fs (st\<lparr>dag := d\<rparr>) = group_of e cx c fs st"
  by (simp add: group_of_def taken_cong [OF assms])

lemma opened_dag: "opened c (st\<lparr>dag := d\<rparr>) = (opened c st)\<lparr>dag := d\<rparr>"
  by (simp add: opened_def)

lemma recorded_dag: "recorded c tg (st\<lparr>dag := d\<rparr>) = (recorded c tg st)\<lparr>dag := d\<rparr>"
  by (simp add: recorded_def)

lemma rshift_group_dag:
  "rshift_group g h (st\<lparr>dag := d\<rparr>) = (rshift_group g h st)\<lparr>dag := d\<rparr>"
  by (simp add: rshift_group_def get_leaves_def get_roots_def)

text \<open>
  The outer loop reads the environment through the files and the sorted listings only,
  and never reads the DAG object.
\<close>

lemma subdir_loop_cong:
  assumes "files e' = files e"
    and "\<forall>c \<in> set cs. same_entries (subdirs e' c) (subdirs e c)"
  shows "subdir_loop e' cx cs pg (st\<lparr>dag := d\<rparr>) =
     (fst (subdir_loop e cx cs pg st), (snd (subdir_loop e cx cs pg st))\<lparr>dag := d\<rparr>)"
  using assms(2)
proof (induction cs arbitrary: pg st)
  case Nil
  show ?case by simp
next
  case (Cons c cs)
  from Cons.prems have same: "same_entries (subdirs e' c) (subdirs e c)"
    and rest: "\<forall>c \<in> set cs. same_entries (subdirs e' c) (subdirs e c)"
    by simp_all
  note IH = Cons.IH [OF rest]
  note f = assms(1)
  have t: "tasks (st\<lparr>dag := d\<rparr>) = tasks st" by simp
  from same show ?case
  proof (cases rule: same_entries_cases)
    case 1
    have L: "subdir_loop e' cx (c # cs) pg (st\<lparr>dag := d\<rparr>) =
        subdir_loop e' cx cs pg (st\<lparr>dag := d\<rparr>)"
      by (rule subdir_loop_NoDir [OF 1(1)])
    have R: "subdir_loop e cx (c # cs) pg st = subdir_loop e cx cs pg st"
      by (rule subdir_loop_NoDir [OF 1(2)])
    show ?thesis unfolding L R by (rule IH)
  next
    case 2
    have L: "subdir_loop e' cx (c # cs) pg (st\<lparr>dag := d\<rparr>) =
        (Inl (ListdirError c), opened c (st\<lparr>dag := d\<rparr>))"
      by (rule subdir_loop_NoList [OF 2(1)])
    have R: "subdir_loop e cx (c # cs) pg st = (Inl (ListdirError c), opened c st)"
      by (rule subdir_loop_NoList [OF 2(2)])
    show ?thesis unfolding L R opened_dag by (simp only: fst_conv snd_conv)
  next
    case (3 xs ys)
    note d' = 3(1) and d = 3(2) and s = 3(3)
    note fd = filled_dag [OF f, where cx = cx and c = c and fs = "sort ys" and st = st and d = d]
    note gd = group_of_dag [OF f, where cx = cx and c = c and fs = "sort ys" and st = st and d = d]
    show ?thesis
    proof (cases "halted e cx c (sort ys) (tasks st)")
      case (Some err)
      then have h': "halted e' cx c (sort xs) (tasks (st\<lparr>dag := d\<rparr>)) = Some err"
        unfolding t halted_cong [OF f] s .
      have L: "subdir_loop e' cx (c # cs) pg (st\<lparr>dag := d\<rparr>) =
          (Inl err, (filled e cx c (sort ys) st)\<lparr>dag := d\<rparr>)"
        using subdir_loop_stopped [OF d' h', of cs pg] unfolding s fd .
      have R: "subdir_loop e cx (c # cs) pg st = (Inl err, filled e cx c (sort ys) st)"
        by (rule subdir_loop_stopped [OF d Some])
      show ?thesis unfolding L R by (simp only: fst_conv snd_conv)
    next
      case None
      then have h': "halted e' cx c (sort xs) (tasks (st\<lparr>dag := d\<rparr>)) = None"
        unfolding t halted_cong [OF f] s .
      show ?thesis
      proof (cases "taken e cx c (sort ys) (tasks st) = []")
        case True
        then have t': "taken e' cx c (sort xs) (tasks (st\<lparr>dag := d\<rparr>)) = []"
          unfolding t taken_cong [OF f] s .
        have L: "subdir_loop e' cx (c # cs) pg (st\<lparr>dag := d\<rparr>) =
            subdir_loop e' cx cs pg ((filled e cx c (sort ys) st)\<lparr>dag := d\<rparr>)"
          using subdir_loop_none [OF d' h' t', of cs pg] unfolding s fd .
        have R: "subdir_loop e cx (c # cs) pg st =
            subdir_loop e cx cs pg (filled e cx c (sort ys) st)"
          by (rule subdir_loop_none [OF d None True])
        show ?thesis unfolding L R by (rule IH)
      next
        case False
        then have t': "taken e' cx c (sort xs) (tasks (st\<lparr>dag := d\<rparr>)) \<noteq> []"
          unfolding t taken_cong [OF f] s .
        let ?g = "group_of e cx c (sort ys) st"
        show ?thesis
        proof (cases pg)
          case no: None
          have L: "subdir_loop e' cx (c # cs) None (st\<lparr>dag := d\<rparr>) =
              subdir_loop e' cx cs (Some ?g)
                ((recorded c ?g (filled e cx c (sort ys) st))\<lparr>dag := d\<rparr>)"
            using subdir_loop_first [OF d' h' t', of cs] unfolding s fd gd recorded_dag .
          have R: "subdir_loop e cx (c # cs) None st =
              subdir_loop e cx cs (Some ?g) (recorded c ?g (filled e cx c (sort ys) st))"
            by (rule subdir_loop_first [OF d None False])
          show ?thesis unfolding no L R by (rule IH)
        next
          case (Some g)
          have L: "subdir_loop e' cx (c # cs) (Some g) (st\<lparr>dag := d\<rparr>) =
              subdir_loop e' cx cs (Some ?g)
                ((rshift_group g ?g (recorded c ?g (filled e cx c (sort ys) st)))\<lparr>dag := d\<rparr>)"
            using subdir_loop_next [OF d' h' t', of cs g]
            unfolding s fd gd recorded_dag rshift_group_dag .
          have R: "subdir_loop e cx (c # cs) (Some g) st =
              subdir_loop e cx cs (Some ?g)
                (rshift_group g ?g (recorded c ?g (filled e cx c (sort ys) st)))"
            by (rule subdir_loop_next [OF d None False])
          show ?thesis unfolding Some L R by (rule IH)
        qed
      qed
    qed
  qed
qed

lemma subdir_loop_dag_update:
  "subdir_loop e cx cs pg (st\<lparr>dag := d\<rparr>) =
     (fst (subdir_loop e cx cs pg st), (snd (subdir_loop e cx cs pg st))\<lparr>dag := d\<rparr>)"
proof -
  have "same_entries a a" for a by (cases a) simp_all
  then show ?thesis by (intro subdir_loop_cong) simp_all
qed

lemma generate_rerun:
  assumes "base_directory_path e' = base_directory_path e" and "yml_file e' = yml_file e"
    and "connections e' = connections e" and "readme e' = readme e"
    and "variables e' = variables e" and "files e' = files e"
    and "\<forall>c \<in> set target_subdirs. same_entries (subdirs e' c) (subdirs e c)"
  shows "generate e' =
     (fst (generate e),
      (snd (generate e))\<lparr>dag :=
         map_option (\<lambda>d. d\<lparr>start_date := today e' - 1\<rparr>) (dag (snd (generate e)))\<rparr>)"
proof -
  have dir: "directory_name e' = directory_name e" "parent_dir_name e' = parent_dir_name e"
    using assms(1) by (simp_all add: directory_name_def parent_dir_name_def)
  have sch: "fetch_schema e' i = fetch_schema e i" for i
    using assms(3) dir by (simp add: fetch_schema_def split: option.splits)
  have cx: "make_ctx e' cfg schema = make_ctx e cfg schema" for cfg schema
    using assms(5) by (simp add: make_ctx_def fetch_params_def Variable_get_def)
  have args: "dag_args e' cfg r = (dag_args e cfg r)\<lparr>start_date := today e' - 1\<rparr>" for cfg r
    using assms(1) dir by (simp add: dag_args_def)
  show ?thesis
  proof (cases e rule: generate_cases)
    case (early err)
    have "generate e' = generate e"
    proof (cases e' rule: generate_cases)
      case early': (early err')
      show ?thesis
      proof (cases "yml_file e")
        case NoYml
        with assms(2) show ?thesis by (simp add: generate_def load_config_def)
      next
        case BadYml
        with assms(2) show ?thesis by (simp add: generate_def load_config_def)
      next
        case (Yml cfg)
        show ?thesis
        proof (cases "fetch_schema e (conn_id_of cfg)")
          case (Inl x)
          with Yml assms(2) sch show ?thesis by (simp add: generate_def load_config_def)
        next
          case (Inr schema)
          show ?thesis
          proof (cases "readme e")
            case None
            with Yml Inr assms(2,4) sch show ?thesis by (simp add: generate_def load_config_def)
          next
            case (Some r)
            show ?thesis
            proof (cases "valid_key (parent_dir_name e @ ''_'' @ directory_name e)")
              case True
              from generate_run [OF Yml Inr Some True] early
              have "subdir_loop e (make_ctx e cfg schema) target_subdirs None
                  (init_state\<lparr>dag := Some (dag_args e cfg r)\<rparr>) = (Inl err, init_state)"
                by simp
              then have "dag (snd (subdir_loop e (make_ctx e cfg schema) target_subdirs None
                  (init_state\<lparr>dag := Some (dag_args e cfg r)\<rparr>))) = None"
                by (simp add: init_state_def)
              then show ?thesis by (simp add: subdir_loop_dag)
            next
              case False
              with Yml Inr Some assms(2,4) sch dir show ?thesis
                by (simp add: generate_def load_config_def make_dag_def DAG_def dag_args_def)
            qed
          qed
        qed
      qed
    next
      case (run cfg schema r)
      with assms(2,4) sch dir have "yml_file e = Yml cfg"
        "fetch_schema e (conn_id_of cfg) = Inr schema" "readme e = Some r"
        "valid_key (parent_dir_name e @ ''_'' @ directory_name e)"
        by simp_all
      from generate_dag [OF this] early show ?thesis by (simp add: init_state_def)
    qed
    with early show ?thesis by (simp add: init_state_def)
  next
    case (run cfg schema r)
    from run assms(2,4) sch dir have run': "yml_file e' = Yml cfg"
      "fetch_schema e' (conn_id_of cfg) = Inr schema" "readme e' = Some r"
      "valid_key (parent_dir_name e' @ ''_'' @ directory_name e')"
      by simp_all
    let ?cx = "make_ctx e cfg schema"
    let ?d' = "Some ((dag_args e cfg r)\<lparr>start_date := today e' - 1\<rparr>)"
    have "generate e' = subdir_loop e' ?cx target_subdirs None (init_state\<lparr>dag := ?d'\<rparr>)"
      by (simp only: generate_run [OF run'] cx args)
    also have "\<dots> = (fst (subdir_loop e ?cx target_subdirs None init_state),
        (snd (subdir_loop e ?cx target_subdirs None init_state))\<lparr>dag := ?d'\<rparr>)"
      by (rule subdir_loop_cong [OF assms(6,7)])
    finally have 1: "generate e' = (fst (subdir_loop e ?cx target_subdirs None init_state),
        (snd (subdir_loop e ?cx target_subdirs None init_state))\<lparr>dag := ?d'\<rparr>)" .
    have "generate e = subdir_loop e ?cx target_subdirs None
        (init_state\<lparr>dag := Some (dag_args e cfg r)\<rparr>)"
      by (rule generate_run [OF run])
    also have "\<dots> = (fst (subdir_loop e ?cx target_subdirs None init_state),
        (snd (subdir_loop e ?cx target_subdirs None init_state))
          \<lparr>dag := Some (dag_args e cfg r)\<rparr>)"
      by (rule subdir_loop_dag_update)
    finally have 2: "generate e = (fst (subdir_loop e ?cx target_subdirs None init_state),
        (snd (subdir_loop e ?cx target_subdirs None init_state))
          \<lparr>dag := Some (dag_args e cfg r)\<rparr>)" .
    show ?thesis unfolding 1 2 by simp
  qed
qed

lemma rerun_same:
  "\<forall>c \<in> set target_subdirs. same_entries (subdirs rerun_env c) (subdirs example_env c)"
  by (simp add: target_subdirs_def rerun_env_def example_env_def add_mset_commute)

text \<open>
  Claim C9. Take two runs over the same inputs: the same script directory, configuration
  file, connections, description file, variables and file contents, and subdirectories
  that hold the same entries. The order in which a subdirectory is listed and the day of
  the run may differ. Both runs end in the same way, with the same units (identifier,
  group, text, connection, parameters) in the same order, the same edges and the same
  groups; the host registers the same pipeline or nothing in both. The day of the run
  shows in the start date of the DAG object and nowhere else.
\<close>

theorem generation_deterministic:
  assumes "base_directory_path e' = base_directory_path e" and "yml_file e' = yml_file e"
    and "connections e' = connections e" and "readme e' = readme e"
    and "variables e' = variables e" and "files e' = files e"
    and "\<forall>c \<in> set target_subdirs. same_entries (subdirs e' c) (subdirs e c)"
  shows "fst (generate e') = fst (generate e) \<and>
    tasks (snd (generate e')) = tasks (snd (generate e)) \<and>
    edges (snd (generate e')) = edges (snd (generate e)) \<and>
    dag_groups (snd (generate e')) = dag_groups (snd (generate e)) \<and>
    task_groups (snd (generate e')) = task_groups (snd (generate e)) \<and>
    dag (snd (generate e')) =
      map_option (\<lambda>d. d\<lparr>start_date := today e' - 1\<rparr>) (dag (snd (generate e))) \<and>
    (host_registry e' = None \<longleftrightarrow> host_registry e = None)"
proof -
  note G = generate_rerun [OF assms]
  have 1: "fst (generate e') = fst (generate e)" unfolding G by simp
  have 2: "tasks (snd (generate e')) = tasks (snd (generate e))" unfolding G by simp
  have 3: "edges (snd (generate e')) = edges (snd (generate e))" unfolding G by simp
  have 4: "dag_groups (snd (generate e')) = dag_groups (snd (generate e))" unfolding G by simp
  have 5: "task_groups (snd (generate e')) = task_groups (snd (generate e))"
    unfolding G by simp
  have 6: "dag (snd (generate e')) =
      map_option (\<lambda>d. d\<lparr>start_date := today e' - 1\<rparr>) (dag (snd (generate e)))"
    by (subst G) simp
  have 7: "host_registry e' = None \<longleftrightarrow> host_registry e = None"
    by (simp only: host_registry_None 1)
  from 1 2 3 4 5 6 7 show ?thesis by (intro conjI)
qed

theorem generation_deterministic_witness:
  "subdirs rerun_env ''file_formats'' = Dir [''1.sql'', ''2.sql''] \<and>
   subdirs example_env ''file_formats'' = Dir [''2.sql'', ''1.sql''] \<and>
   today rerun_env = 20001 \<and> today example_env = 20000 \<and>
   fst (generate rerun_env) = Inr () \<and>
   tasks (snd (generate rerun_env)) = tasks (snd (generate example_env)) \<and>
   length (tasks (snd (generate rerun_env))) = 3 \<and>
   edges (snd (generate rerun_env)) = edges (snd (generate example_env)) \<and>
   map_option start_date (dag (snd (generate rerun_env))) = Some 20000 \<and>
   map_option start_date (dag (snd (generate example_env))) = Some 19999"
proof -
  have eqs: "base_directory_path rerun_env = base_directory_path example_env"
    "yml_file rerun_env = yml_file example_env" "connections rerun_env = connections example_env"
    "readme rerun_env = readme example_env" "variables rerun_env = variables example_env"
    "files rerun_env = files example_env"
    by (simp_all add: rerun_env_def)
  note D = generation_deterministic [OF eqs rerun_same]
  note D1 = D [THEN conjunct1]
  note D2 = D [THEN conjunct2, THEN conjunct1]
  note D3 = D [THEN conjunct2, THEN conjunct2, THEN conjunct1]
  note D6 = D [THEN conjunct2, THEN conjunct2, THEN conjunct2, THEN conjunct2, THEN conjunct2,
    THEN conjunct1]
  have s: "subdirs rerun_env ''file_formats'' = Dir [''1.sql'', ''2.sql'']"
    "subdirs example_env ''file_formats'' = Dir [''2.sql'', ''1.sql'']"
    by (simp_all add: rerun_env_def example_env_def)
  have t: "today rerun_env = 20001" "today example_env = 20000"
    by (simp_all add: rerun_env_def example_env_def)
  from D1 example_fst have 1: "fst (generate rerun_env) = Inr ()" by simp
  from D2 example_length have 3: "length (tasks (snd (generate rerun_env))) = 3" by simp
  have d: "dag (snd (generate example_env)) =
      Some (dag_args example_env example_config ''# sales'')"
    by (rule generate_dag [OF example_run])
  then have 5: "map_option start_date (dag (snd (generate example_env))) = Some 19999"
    by (simp add: dag_args_def t)
  from D6 d have 4: "map_option start_date (dag (snd (generate rerun_env))) = Some 20000"
    by (simp add: t)
  from s t 1 D2 3 D3 4 5 show ?thesis by (intro conjI)
qed

end
